theory Spec2Isabelle
  imports Complex_Main "HOL-Library.AList"
begin

section \<open>Data model\<close>

text \<open>
  The diagram of \<^verbatim>\<open>src/app.py\<close>: wires are polylines of grid points, gates are typed
  markers, sensors are bare positions. Coordinates are Python ints (\<^verbatim>\<open>Tuple[int, int]\<close>, the
  result of \<^verbatim>\<open>snap_to_grid\<close>). Python floats (\<^verbatim>\<open>math.sqrt\<close>, true division) are
  modelled as exact reals: rounding is not part of this model.

  The dataclass fields \<^verbatim>\<open>connected_gates\<close>, \<^verbatim>\<open>sensors\<close> (of a wire) and
  \<^verbatim>\<open>connected_wires\<close> (of a gate) are set to the empty list on construction and never read;
  they are left out.
\<close>

type_synonym point = "int \<times> int"

record Wire =
  points :: "point list"

record Gate =
  type :: string
  pos :: point

datatype py_error =
  IndexError | KeyError | ZeroDivisionError | AttributeError | CircuitError | OSError
  | ExecutionError

text \<open>The value of \<^verbatim>\<open>point_to_line_distance\<close>: a float, or \<^verbatim>\<open>float("inf")\<close>.\<close>

datatype distance = Finite real | Infinity

definition grid_size :: int where
  "grid_size = 20"

section \<open>Geometry utilities\<close>

definition point_to_line_distance :: "point \<Rightarrow> point \<Rightarrow> point \<Rightarrow> distance" where
  "point_to_line_distance point line_start line_end =
     (case (point, line_start, line_end) of ((x0, y0), (x1, y1), (x2, y2)) \<Rightarrow>
        if (x1, y1) = (x2, y2) then Finite (sqrt (real_of_int ((x0 - x1)\<^sup>2 + (y0 - y1)\<^sup>2)))
        else
          let numerator = (x0 - x1) * (x2 - x1) + (y0 - y1) * (y2 - y1);
              denominator = sqrt (real_of_int ((y2 - y1)\<^sup>2 + (x2 - x1)\<^sup>2))
          in if denominator = 0 then Infinity
             else
               let t = max 0 (min 1 (real_of_int numerator / denominator\<^sup>2));
                   proj_x = real_of_int x1 + t * real_of_int (x2 - x1);
                   proj_y = real_of_int y1 + t * real_of_int (y2 - y1)
               in Finite (sqrt ((real_of_int x0 - proj_x)\<^sup>2 + (real_of_int y0 - proj_y)\<^sup>2)))"

definition point_on_line_segment :: "point \<Rightarrow> point \<Rightarrow> point \<Rightarrow> bool" where
  "point_on_line_segment point line_start line_end =
     (case point_to_line_distance point line_start line_end of
        Infinity \<Rightarrow> False
      | Finite d \<Rightarrow>
          if d > real_of_int grid_size / 2 then False
          else (case (point, line_start, line_end) of ((x, y), (x1, y1), (x2, y2)) \<Rightarrow>
                  min x1 x2 \<le> x \<and> x \<le> max x1 x2 \<and> min y1 y2 \<le> y \<and> y \<le> max y1 y2))"

definition point_near_pos :: "point \<Rightarrow> point \<Rightarrow> int \<Rightarrow> bool" where
  "point_near_pos pos1 pos2 threshold =
     (let dx = fst pos1 - fst pos2; dy = snd pos1 - snd pos2
      in dx * dx + dy * dy \<le> threshold * threshold)"

section \<open>The execution engine's circuit object\<close>

text \<open>
  Modelled from the spec: the quantum-circuit object of the execution engine (the external
  library Qiskit, none of its code is under \<^verbatim>\<open>src/\<close>). A circuit has qubits and classical
  bits, each numbered from 0 across its registers in the order in which the registers were
  added, and an ordered sequence of operations; each call appends one operation, and a
  call with an index outside the circuit raises instead (the spec's "out-of-range target").
  \<open>Measure q b\<close> measures qubit \<open>q\<close> into classical bit \<open>b\<close>.

  \<^verbatim>\<open>measure_all()\<close> is called with the library's default arguments. As the library
  documents and implements it, the call then adds a new classical register \<^verbatim>\<open>meas\<close> with
  as many bits as the circuit has qubits, appends a barrier, and measures every qubit \<open>q\<close>
  into bit \<open>q\<close> of the new register; the classical bits that existed before the call are
  not written. The bits of the new register are numbered after the existing ones.
\<close>

datatype instruction =
  Reset nat | H nat | X nat | Y nat | Z nat | CX nat nat | Measure nat nat | Barrier

record QuantumCircuit =
  num_qubits :: nat
  num_clbits :: nat
  data :: "instruction list"

definition append_instruction ::
  "instruction \<Rightarrow> bool \<Rightarrow> QuantumCircuit \<Rightarrow> py_error + QuantumCircuit" where
  "append_instruction i in_range c =
     (if in_range then Inr (c\<lparr>data := data c @ [i]\<rparr>) else Inl CircuitError)"

definition circuit_reset :: "nat \<Rightarrow> QuantumCircuit \<Rightarrow> py_error + QuantumCircuit" where
  "circuit_reset q c = append_instruction (Reset q) (q < num_qubits c) c"

definition circuit_h :: "nat \<Rightarrow> QuantumCircuit \<Rightarrow> py_error + QuantumCircuit" where
  "circuit_h q c = append_instruction (H q) (q < num_qubits c) c"

definition circuit_x :: "nat \<Rightarrow> QuantumCircuit \<Rightarrow> py_error + QuantumCircuit" where
  "circuit_x q c = append_instruction (X q) (q < num_qubits c) c"

definition circuit_y :: "nat \<Rightarrow> QuantumCircuit \<Rightarrow> py_error + QuantumCircuit" where
  "circuit_y q c = append_instruction (Y q) (q < num_qubits c) c"

definition circuit_z :: "nat \<Rightarrow> QuantumCircuit \<Rightarrow> py_error + QuantumCircuit" where
  "circuit_z q c = append_instruction (Z q) (q < num_qubits c) c"

definition circuit_cx :: "nat \<Rightarrow> nat \<Rightarrow> QuantumCircuit \<Rightarrow> py_error + QuantumCircuit" where
  "circuit_cx q t c =
     append_instruction (CX q t) (q < num_qubits c \<and> t < num_qubits c \<and> q \<noteq> t) c"

definition circuit_measure :: "nat \<Rightarrow> nat \<Rightarrow> QuantumCircuit \<Rightarrow> py_error + QuantumCircuit" where
  "circuit_measure q b c =
     append_instruction (Measure q b) (q < num_qubits c \<and> b < num_clbits c) c"

definition circuit_measure_all :: "QuantumCircuit \<Rightarrow> py_error + QuantumCircuit" where
  "circuit_measure_all c =
     Inr (c\<lparr>num_clbits := num_clbits c + num_qubits c,
            data := data c @ Barrier
                      # map (\<lambda>q. Measure q (num_clbits c + q)) [0 ..< num_qubits c]\<rparr>)"

section \<open>The editor state\<close>

text \<open>
  The fields of \<^verbatim>\<open>QuantumCircuitDesigner\<close> that compilation and simulation read or write.
  \<^verbatim>\<open>sensor_data\<close> is the dict from \<^verbatim>\<open>f"Sensor {i}"\<close> to \<^verbatim>\<open>{"0": p0, "1": p1}\<close>, kept as an
  association list in insertion order with the key \<open>i\<close> and the value \<open>(p0, p1)\<close>. The two
  text widgets hold what was last written to them.
\<close>

type_synonym sensor_stats = "(nat \<times> (real \<times> real)) list"

datatype info_text =
  InitialInfo | CircuitRendering "QuantumCircuit option" | ErrorMessage py_error

datatype report_text =
  InitialReport | NoMeasurements | MeasurementResults "(nat \<times> real \<times> real \<times> string) list"

record QuantumCircuitDesigner =
  wires :: "Wire list"
  gates :: "Gate list"
  sensors :: "point list"
  circuit :: "QuantumCircuit option"
  sensor_data :: sensor_stats
  circuit_info :: info_text
  sensor_text :: report_text

text \<open>
  \<^verbatim>\<open>not self.circuit\<close>: true for \<^verbatim>\<open>None\<close>, and also for a circuit object without operations,
  since the engine's circuit defines its length as the number of its operations.
\<close>

definition circuit_falsy :: "QuantumCircuit option \<Rightarrow> bool" where
  "circuit_falsy c = (case c of None \<Rightarrow> True | Some qc \<Rightarrow> data qc = [])"

definition initialize_circuit :: "QuantumCircuitDesigner \<Rightarrow> QuantumCircuitDesigner" where
  "initialize_circuit self =
     (if wires self = [] then self
      else self\<lparr>circuit := Some \<lparr>num_qubits = max (length (wires self)) 1,
                                   num_clbits = max (length (wires self)) 1,
                                   data = []\<rparr>\<rparr>)"

text \<open>
  \<^verbatim>\<open>add_gate_to_circuit\<close>: the \<^verbatim>\<open>if\<close>/\<^verbatim>\<open>elif\<close> chain on the gate type, inside a
  \<^verbatim>\<open>try\<close> whose handler only prints, so an operation that raises is dropped. The wire
  index is always an int here (never \<^verbatim>\<open>None\<close>).
\<close>

definition add_gate_to_circuit ::
  "string \<Rightarrow> nat \<Rightarrow> QuantumCircuitDesigner \<Rightarrow> QuantumCircuitDesigner" where
  "add_gate_to_circuit gate_type wire_idx self =
     (case circuit self of
        None \<Rightarrow> self
      | Some qc \<Rightarrow>
          if circuit_falsy (circuit self) then self
          else
            let r = (if gate_type = ''H'' then circuit_h wire_idx qc
                     else if gate_type = ''X'' then circuit_x wire_idx qc
                     else if gate_type = ''Y'' then circuit_y wire_idx qc
                     else if gate_type = ''Z'' then circuit_z wire_idx qc
                     else if gate_type = ''CNOT''
                             \<and> int wire_idx < int (length (wires self)) - 1
                          then circuit_cx wire_idx (wire_idx + 1) qc
                     else Inr qc)
            in (case r of Inl e \<Rightarrow> self | Inr qc' \<Rightarrow> self\<lparr>circuit := Some qc'\<rparr>))"

section \<open>Result aggregator\<close>

text \<open>
  \<^verbatim>\<open>counts\<close> is a dict from bitstring to int, read as an association list in iteration
  order. Characters are code points below 256; \<^verbatim>\<open>is_space\<close> lists those that
  \<^verbatim>\<open>str.split()\<close> treats as whitespace, so \<^verbatim>\<open>"".join(bitstring.split())\<close> drops them.
\<close>

definition is_space :: "char \<Rightarrow> bool" where
  "is_space c = (of_char c \<in> {9, 10, 11, 12, 13, 28, 29, 30, 31, 32, 133, 160 :: nat})"

definition join_split :: "string \<Rightarrow> string" where
  "join_split bitstring = filter (\<lambda>c. \<not> is_space c) bitstring"

definition true_div :: "int \<Rightarrow> int \<Rightarrow> py_error + real" where
  "true_div a b = (if b = 0 then Inl ZeroDivisionError else Inr (real_of_int a / real_of_int b))"

definition add_bit :: "real \<Rightarrow> nat \<times> char \<Rightarrow> sensor_stats \<Rightarrow> sensor_stats" where
  "add_bit probability ib processed_data =
     (case ib of (sensor_idx, bit_char) \<Rightarrow>
        let d1 = (case map_of processed_data sensor_idx of
                    None \<Rightarrow> AList.update sensor_idx (0, 0) processed_data
                  | Some v \<Rightarrow> processed_data)
        in (case map_of d1 sensor_idx of
              None \<Rightarrow> d1
            | Some (p0, p1) \<Rightarrow>
                if bit_char = CHR ''0'' then AList.update sensor_idx (p0 + probability, p1) d1
                else if bit_char = CHR ''1'' then AList.update sensor_idx (p0, p1 + probability) d1
                else d1))"

fun process_items ::
  "int \<Rightarrow> (string \<times> int) list \<Rightarrow> sensor_stats \<Rightarrow> py_error + sensor_stats" where
  "process_items total_shots [] processed_data = Inr processed_data"
| "process_items total_shots ((bitstring, count) # rest) processed_data =
     (case true_div count total_shots of
        Inl e \<Rightarrow> Inl e
      | Inr probability \<Rightarrow>
          let bits = join_split bitstring
          in process_items total_shots rest
               (fold (add_bit probability) (enumerate 0 bits) processed_data))"

definition process_measurement_results :: "(string \<times> int) list \<Rightarrow> py_error + sensor_stats" where
  "process_measurement_results counts =
     (let total_shots = sum_list (map snd counts)
      in if counts = [] \<or> total_shots = 0 then Inr []
         else process_items total_shots counts [])"

section \<open>Notions used to state the properties\<close>

text \<open>The sum of the two probabilities of one bucket of the aggregator's result.\<close>

definition bucket_sum :: "sensor_stats \<Rightarrow> nat \<Rightarrow> real" where
  "bucket_sum d i = (case map_of d i of None \<Rightarrow> 0 | Some (p0, p1) \<Rightarrow> p0 + p1)"

text \<open>A bitstring of the engine: only the characters \<^verbatim>\<open>0\<close> and \<^verbatim>\<open>1\<close>.\<close>

definition binary :: "string \<Rightarrow> bool" where
  "binary bits = list_all (\<lambda>c. c = CHR ''0'' \<or> c = CHR ''1'') bits"

text \<open>Counts as the engine returns them for one circuit: every key holds \<open>L\<close> bits.\<close>

definition uniform_counts :: "nat \<Rightarrow> (string \<times> int) list \<Rightarrow> bool" where
  "uniform_counts L counts =
     list_all (\<lambda>(bs, c). length (join_split bs) = L \<and> binary (join_split bs)) counts"

text \<open>A small diagram: two parallel horizontal wires, and a circuit that was reset once.\<close>

definition demo_wires :: "Wire list" where
  "demo_wires = [\<lparr>points = [(0, 0), (40, 0)]\<rparr>, \<lparr>points = [(0, 40), (40, 40)]\<rparr>]"



section \<open>Wire connectivity resolver\<close>

text \<open>
  \<^verbatim>\<open>connections\<close> is a dict with the keys \<open>0, \<dots>, n - 1\<close> inserted in this order: a list
  indexed by the key, a lookup beyond its length being the \<^verbatim>\<open>KeyError\<close>. Its values and
  \<^verbatim>\<open>connected\<close> (here \<open>reached\<close>) are Python sets of ints. The order in which a \<^verbatim>\<open>for\<close> loop runs through
  a set is not fixed by the code; it is the parameter \<open>iter\<close>, which lists the elements of
  a set.
\<close>

definition endpoints :: "Wire \<Rightarrow> py_error + point list" where
  "endpoints wire =
     (case points wire of [] \<Rightarrow> Inl IndexError | p # ps \<Rightarrow> Inr [p, last (p # ps)])"

fun scan_wires :: "nat \<Rightarrow> Wire \<Rightarrow> (nat \<times> Wire) list \<Rightarrow> nat set \<Rightarrow> py_error + nat set" where
  "scan_wires i wire1 [] acc = Inr acc"
| "scan_wires i wire1 ((j, wire2) # rest) acc =
     (if i \<noteq> j then
        (case endpoints wire1 of
           Inl e \<Rightarrow> Inl e
         | Inr ps1 \<Rightarrow>
             (case endpoints wire2 of
                Inl e \<Rightarrow> Inl e
              | Inr ps2 \<Rightarrow>
                  scan_wires i wire1 rest
                    (if list_ex (\<lambda>p1. list_ex (\<lambda>p2. point_near_pos p1 p2 10) ps2) ps1
                     then insert j acc else acc)))
      else scan_wires i wire1 rest acc)"

fun find_connections_loop ::
  "Wire list \<Rightarrow> (nat \<times> Wire) list \<Rightarrow> nat set list \<Rightarrow> py_error + nat set list" where
  "find_connections_loop ws [] connections = Inr connections"
| "find_connections_loop ws ((i, wire1) # rest) connections =
     (case scan_wires i wire1 (enumerate 0 ws) {} of
        Inl e \<Rightarrow> Inl e
      | Inr s \<Rightarrow> find_connections_loop ws rest (connections @ [s]))"

definition find_wire_connections :: "QuantumCircuitDesigner \<Rightarrow> py_error + nat set list" where
  "find_wire_connections self = find_connections_loop (wires self) (enumerate 0 (wires self)) []"

fun visit_neighbors :: "nat list \<Rightarrow> nat set \<times> nat list \<Rightarrow> nat set \<times> nat list" where
  "visit_neighbors [] cs = cs"
| "visit_neighbors (neighbor # rest) (reached, stack) =
     visit_neighbors rest
       (if neighbor \<notin> reached then (insert neighbor reached, stack @ [neighbor])
        else (reached, stack))"

text \<open>
  The \<^verbatim>\<open>while stack\<close> loop of \<^verbatim>\<open>get_connected_wires\<close>. The last argument is not in the
  source: it records the nodes popped so far, in order.
\<close>

function search ::
  "(nat set \<Rightarrow> nat list) \<Rightarrow> nat set list \<Rightarrow> nat set \<times> nat list \<Rightarrow> nat list
   \<Rightarrow> py_error + nat set \<times> nat list" where
  "search iter connections (reached, stack) visited =
     (if stack = [] then Inr (reached, visited)
      else
        let current = last stack
        in if current < length connections
           then search iter connections
                  (visit_neighbors (iter (connections ! current)) (reached, butlast stack))
                  (visited @ [current])
           else Inl KeyError)"
  by pat_completeness auto

lemma visit_neighbors_result:
  "\<exists>new. visit_neighbors ns (reached, stack) = (reached \<union> set ns, stack @ new)
         \<and> set new = set ns - reached \<and> distinct new"
proof (induction ns arbitrary: reached stack)
  case Nil
  then show ?case by simp
next
  case (Cons n ns)
  show ?case
  proof (cases "n \<in> reached")
    case True
    with Cons.IH [of reached stack] show ?thesis by auto
  next
    case False
    from Cons.IH [of "insert n reached" "stack @ [n]"] obtain new where new:
      "visit_neighbors ns (insert n reached, stack @ [n])
         = (insert n reached \<union> set ns, (stack @ [n]) @ new)"
      "set new = set ns - insert n reached" "distinct new"
      by blast
    with False show ?thesis
      by (intro exI [of _ "n # new"]) auto
  qed
qed

lemma step_decreases:
  fixes U R N :: "nat set" and new stack :: "nat list"
  assumes sub: "N \<subseteq> U" and fin: "finite (U - R)" and new: "set new = N - R"
    and stack: "stack \<noteq> []"
  shows "(U - (R \<union> N) \<subset> U - R \<and> finite (U - R))
      \<or> (U - (R \<union> N) = U - R \<and> length (butlast stack @ new) < length stack)"
proof (cases "N \<subseteq> R")
  case True
  then have "N - R = {}" by (simp only: Diff_eq_empty_iff)
  with new have "new = []" by simp
  moreover from True have "R \<union> N = R" by (rule Un_absorb2)
  ultimately show ?thesis
    using stack by simp
next
  case False
  then obtain x where x: "x \<in> N" "x \<notin> R" by (auto simp only: subset_iff)
  from x sub have "x \<in> U - R" by (auto simp only: subset_iff Diff_iff)
  moreover from x have "x \<notin> U - (R \<union> N)" by (simp only: Diff_iff Un_iff) simp
  moreover have "U - (R \<union> N) \<subseteq> U - R" by (rule Diff_mono) (rule subset_refl, rule Un_upper1)
  ultimately have "U - (R \<union> N) \<subset> U - R" by (auto simp only: psubset_eq)
  with fin show ?thesis by simp
qed

lemma lex_step:
  "(A' \<subset> A \<and> finite A) \<or> (A' = A \<and> n' < n) \<Longrightarrow>
   ((A', n'), (A, n)) \<in> finite_psubset <*lex*> less_than"
  by (auto simp only: in_lex_prod in_finite_psubset less_than_iff)

termination search
proof (relation "inv_image (finite_psubset <*lex*> less_than)
    (\<lambda>(iter, connections, (reached, stack), visited).
       ((\<Union>s \<in> set connections. set (iter s)) - reached, length stack))")
  show "wf (inv_image (finite_psubset <*lex*> less_than)
    (\<lambda>(iter, connections, (reached, stack), visited).
       ((\<Union>s \<in> set connections. set (iter s)) - reached, length stack)))"
    by (intro wf_inv_image wf_lex_prod wf_finite_psubset wf_less_than)
next
  fix iter :: "nat set \<Rightarrow> nat list" and connections :: "nat set list"
    and reached :: "nat set" and stack visited :: "nat list" and current :: nat
  assume stack: "stack \<noteq> []" and lt: "current < length connections"
  define U where "U = (\<Union>s \<in> set connections. set (iter s))"
  define ns where "ns = iter (connections ! current)"
  from visit_neighbors_result [of ns reached "butlast stack"] obtain new where new:
    "visit_neighbors ns (reached, butlast stack) = (reached \<union> set ns, butlast stack @ new)"
    "set new = set ns - reached"
    by (elim exE conjE)
  have mem: "connections ! current \<in> set connections"
    using lt by (rule nth_mem)
  have sub: "set ns \<subseteq> U"
    unfolding U_def ns_def using UN_upper [OF mem, of "\<lambda>s. set (iter s)"] .
  have fin: "finite (U - reached)"
    unfolding U_def by (intro finite_Diff finite_UN_I finite_set)
  have "((U - (reached \<union> set ns), length (butlast stack @ new)), (U - reached, length stack))
          \<in> finite_psubset <*lex*> less_than"
    by (rule lex_step) (rule step_decreases [OF sub fin new(2) stack])
  then show "((iter, connections, visit_neighbors (iter (connections ! current)) (reached, butlast stack),
          visited @ [current]),
         (iter, connections, (reached, stack), visited))
        \<in> inv_image (finite_psubset <*lex*> less_than)
    (\<lambda>(iter, connections, (reached, stack), visited).
       ((\<Union>s \<in> set connections. set (iter s)) - reached, length stack))"
    unfolding in_inv_image prod.case new(1) [unfolded ns_def] U_def ns_def .
qed

definition get_connected_wires ::
  "(nat set \<Rightarrow> nat list) \<Rightarrow> nat \<Rightarrow> nat set list \<Rightarrow> py_error + nat set" where
  "get_connected_wires iter start_wire connections =
     (case search iter connections ({start_wire}, [start_wire]) [] of
        Inl e \<Rightarrow> Inl e
      | Inr (reached, visited) \<Rightarrow> Inr reached)"

declare search.simps [simp del]

text \<open>
  Two wires are connected when an endpoint of one is near an endpoint of the other
  (\<^verbatim>\<open>point_near_pos\<close> with threshold 10), as \<^verbatim>\<open>find_wire_connections\<close> tests it.
\<close>

definition endpoints_coincide :: "Wire \<Rightarrow> Wire \<Rightarrow> bool" where
  "endpoints_coincide wire1 wire2 =
     list_ex (\<lambda>p1. list_ex (\<lambda>p2. point_near_pos p1 p2 10)
                [hd (points wire2), last (points wire2)])
       [hd (points wire1), last (points wire1)]"

text \<open>The loop invariant of the search, and what it needs of the graph and of \<open>iter\<close>.\<close>

definition search_inv :: "nat set list \<Rightarrow> nat set \<Rightarrow> nat list \<Rightarrow> nat list \<Rightarrow> bool" where
  "search_inv conns reached stack visited \<longleftrightarrow>
     distinct (visited @ stack) \<and> set (visited @ stack) = reached
     \<and> (\<forall>x \<in> set visited. conns ! x \<subseteq> reached)"

definition graph_ok :: "(nat set \<Rightarrow> nat list) \<Rightarrow> nat set list \<Rightarrow> bool" where
  "graph_ok iter conns \<longleftrightarrow>
     (\<forall>i < length conns. set (iter (conns ! i)) = conns ! i \<and> conns ! i \<subseteq> {..< length conns})"

text \<open>The adjacency as a relation, and a chain of three wires 0 - 1 - 2.\<close>

definition wire_edges :: "nat set list \<Rightarrow> (nat \<times> nat) set" where
  "wire_edges conns = {(x, y). x < length conns \<and> y \<in> conns ! x}"

definition chain_wires :: "Wire list" where
  "chain_wires = [\<lparr>points = [(0, 0), (40, 0)]\<rparr>, \<lparr>points = [(40, 0), (80, 0)]\<rparr>,
                  \<lparr>points = [(80, 40), (80, 0)]\<rparr>]"

definition chain_state :: QuantumCircuitDesigner where
  "chain_state = \<lparr>wires = chain_wires, gates = [], sensors = [], circuit = None,
     sensor_data = [], circuit_info = InitialInfo, sensor_text = InitialReport\<rparr>"

section \<open>Position along a wire\<close>

text \<open>\<^verbatim>\<open>zip(wire.points, wire.points[1:])\<close>, the segments of a wire in point order.\<close>

definition segments :: "Wire \<Rightarrow> (point \<times> point) list" where
  "segments wire = zip (points wire) (tl (points wire))"

text \<open>\<^verbatim>\<open>math.sqrt((p2[0] - p1[0]) ** 2 + (p2[1] - p1[1]) ** 2)\<close>.\<close>

definition segment_length :: "point \<Rightarrow> point \<Rightarrow> real" where
  "segment_length p1 p2 = sqrt (real_of_int ((fst p2 - fst p1)\<^sup>2 + (snd p2 - snd p1)\<^sup>2))"

text \<open>The local variables of the loop of \<^verbatim>\<open>get_position_along_wire\<close>.\<close>

record position_state =
  total_length :: real
  current_length :: real
  target_segment :: "(point \<times> point) option"
  segment_start :: real

definition position_step :: "point \<Rightarrow> point \<times> point \<Rightarrow> position_state \<Rightarrow> position_state" where
  "position_step point seg st =
     (case seg of (p1, p2) \<Rightarrow>
        let len = segment_length p1 p2;
            st1 = st\<lparr>total_length := total_length st + len\<rparr>;
            st2 = (if point_on_line_segment point p1 p2
                   then st1\<lparr>target_segment := Some (p1, p2), segment_start := current_length st1\<rparr>
                   else st1)
        in st2\<lparr>current_length := current_length st2 + len\<rparr>)"

definition get_position_along_wire :: "point \<Rightarrow> Wire \<Rightarrow> py_error + real" where
  "get_position_along_wire point wire =
     (let st = fold (position_step point) (segments wire)
                 \<lparr>total_length = 0, current_length = 0, target_segment = None,
                  segment_start = 0\<rparr>
      in case target_segment st of
           None \<Rightarrow> Inr 0
         | Some (p1, p2) \<Rightarrow>
             let point_distance = segment_length p1 point
             in if total_length st = 0 then Inl ZeroDivisionError
                else Inr ((segment_start st + point_distance) / total_length st))"

text \<open>
  Notions to state where a point lies on a wire: whether it is on some segment, the total
  length of the polyline, the last and the first segment (in point order) that the point is
  on, and the arc-length fraction of a point measured on the segment of index \<open>k\<close>.
\<close>

definition on_wire :: "point \<Rightarrow> Wire \<Rightarrow> bool" where
  "on_wire p wire = list_ex (\<lambda>(p1, p2). point_on_line_segment p p1 p2) (segments wire)"

definition lengths_sum :: "(point \<times> point) list \<Rightarrow> real" where
  "lengths_sum segs = sum_list (map (\<lambda>(p1, p2). segment_length p1 p2) segs)"

definition last_matching :: "point \<Rightarrow> (point \<times> point) list \<Rightarrow> nat option" where
  "last_matching p segs =
     (case filter (\<lambda>k. point_on_line_segment p (fst (segs ! k)) (snd (segs ! k)))
             (rev [0 ..< length segs]) of
        [] \<Rightarrow> None
      | k # ks \<Rightarrow> Some k)"

definition first_matching :: "point \<Rightarrow> (point \<times> point) list \<Rightarrow> nat option" where
  "first_matching p segs =
     (case filter (\<lambda>k. point_on_line_segment p (fst (segs ! k)) (snd (segs ! k)))
             [0 ..< length segs] of
        [] \<Rightarrow> None
      | k # ks \<Rightarrow> Some k)"

definition arc_position :: "Wire \<Rightarrow> nat \<Rightarrow> point \<Rightarrow> real" where
  "arc_position wire k p =
     (lengths_sum (take k (segments wire)) + segment_length (fst (segments wire ! k)) p)
       / lengths_sum (segments wire)"

text \<open>
  Three wires: one whose second segment passes within half a grid cell of points of its
  first segment, the same shortened to start at such a point, and a straight one.
\<close>

definition bent_wire :: Wire where
  "bent_wire = \<lparr>points = [(0, 0), (240, 0), (0, 100)]\<rparr>"

definition short_bent_wire :: Wire where
  "short_bent_wire = \<lparr>points = [(220, 0), (240, 0), (0, 100)]\<rparr>"

definition straight_wire :: Wire where
  "straight_wire = \<lparr>points = [(0, 0), (20, 0), (40, 0)]\<rparr>"

section \<open>Circuit compiler\<close>

text \<open>
  The compiling part of \<^verbatim>\<open>simulate_circuit\<close>. A step that can raise returns either the
  exception together with the state as it was mutated so far, or its result.
\<close>

type_synonym 'a outcome = "(py_error \<times> QuantumCircuitDesigner) + 'a"

text \<open>The two loops that build \<^verbatim>\<open>wire_gates\<close> for one wire: over the gates, over the segments.\<close>

fun collect_segments ::
  "Gate \<Rightarrow> Wire \<Rightarrow> (point \<times> point) list \<Rightarrow> (Gate \<times> real) list
   \<Rightarrow> py_error + (Gate \<times> real) list" where
  "collect_segments gate wire [] wire_gates = Inr wire_gates"
| "collect_segments gate wire ((p1, p2) # rest) wire_gates =
     (if point_on_line_segment (pos gate) p1 p2
      then (case get_position_along_wire (pos gate) wire of
              Inl e \<Rightarrow> Inl e
            | Inr a \<Rightarrow> collect_segments gate wire rest (wire_gates @ [(gate, a)]))
      else collect_segments gate wire rest wire_gates)"

fun collect_gates ::
  "Gate list \<Rightarrow> Wire \<Rightarrow> (Gate \<times> real) list \<Rightarrow> py_error + (Gate \<times> real) list" where
  "collect_gates [] wire wire_gates = Inr wire_gates"
| "collect_gates (gate # rest) wire wire_gates =
     (case collect_segments gate wire (segments wire) wire_gates of
        Inl e \<Rightarrow> Inl e
      | Inr wg \<Rightarrow> collect_gates rest wire wg)"

text \<open>
  The body of \<^verbatim>\<open>for connected_wire_idx in connected_group\<close>: reset, collect, sort
  (\<^verbatim>\<open>list.sort\<close> is stable, as \<open>sort_key\<close> is), add the gates, mark the wire processed.
\<close>

definition process_wire ::
  "nat \<Rightarrow> QuantumCircuitDesigner \<times> nat set \<Rightarrow> (QuantumCircuitDesigner \<times> nat set) outcome" where
  "process_wire connected_wire_idx sp =
     (case sp of (self, processed_wires) \<Rightarrow>
        (case circuit self of
           None \<Rightarrow> Inl (AttributeError, self)
         | Some qc \<Rightarrow>
             (case circuit_reset connected_wire_idx qc of
                Inl e \<Rightarrow> Inl (e, self)
              | Inr qc1 \<Rightarrow>
                  let self1 = self\<lparr>circuit := Some qc1\<rparr>
                  in if connected_wire_idx < length (wires self1)
                     then
                       (case collect_gates (gates self1) (wires self1 ! connected_wire_idx) [] of
                          Inl e \<Rightarrow> Inl (e, self1)
                        | Inr wire_gates \<Rightarrow>
                            Inr (fold (\<lambda>ga. add_gate_to_circuit (type (fst ga)) connected_wire_idx)
                                   (sort_key snd wire_gates) self1,
                                 insert connected_wire_idx processed_wires))
                     else Inl (IndexError, self1))))"

fun process_group ::
  "nat list \<Rightarrow> QuantumCircuitDesigner \<times> nat set \<Rightarrow> (QuantumCircuitDesigner \<times> nat set) outcome" where
  "process_group [] sp = Inr sp"
| "process_group (connected_wire_idx # rest) sp =
     (case process_wire connected_wire_idx sp of
        Inl x \<Rightarrow> Inl x
      | Inr sp' \<Rightarrow> process_group rest sp')"

text \<open>The loop \<^verbatim>\<open>for wire_idx, wire in enumerate(self.wires)\<close>.\<close>

fun process_wires ::
  "(nat set \<Rightarrow> nat list) \<Rightarrow> nat set list \<Rightarrow> nat list \<Rightarrow> QuantumCircuitDesigner \<times> nat set
   \<Rightarrow> (QuantumCircuitDesigner \<times> nat set) outcome" where
  "process_wires iter wire_connections [] sp = Inr sp"
| "process_wires iter wire_connections (wire_idx # rest) (self, processed_wires) =
     (if wire_idx \<in> processed_wires
      then process_wires iter wire_connections rest (self, processed_wires)
      else
        (case get_connected_wires iter wire_idx wire_connections of
           Inl e \<Rightarrow> Inl (e, self)
         | Inr connected_group \<Rightarrow>
             (case process_group (iter connected_group) (self, processed_wires) of
                Inl x \<Rightarrow> Inl x
              | Inr sp \<Rightarrow> process_wires iter wire_connections rest sp)))"

definition compile_gates ::
  "(nat set \<Rightarrow> nat list) \<Rightarrow> QuantumCircuitDesigner \<Rightarrow> QuantumCircuitDesigner outcome" where
  "compile_gates iter self =
     (case find_wire_connections self of
        Inl e \<Rightarrow> Inl (e, self)
      | Inr wire_connections \<Rightarrow>
          (case process_wires iter wire_connections [0 ..< length (wires self)] (self, {}) of
             Inl x \<Rightarrow> Inl x
           | Inr (self', processed_wires) \<Rightarrow> Inr self'))"

text \<open>
  Measurement attachment: the loops over the sensors, the wires and the segments of a wire.
  The \<^verbatim>\<open>break\<close> leaves the loop over the segments.
\<close>

fun measure_segments ::
  "point \<Rightarrow> nat \<Rightarrow> (point \<times> point) list \<Rightarrow> QuantumCircuitDesigner \<times> bool
   \<Rightarrow> (QuantumCircuitDesigner \<times> bool) outcome" where
  "measure_segments sensor_pos wire_idx [] sm = Inr sm"
| "measure_segments sensor_pos wire_idx ((p1, p2) # rest) (self, measurements_added) =
     (if point_on_line_segment sensor_pos p1 p2
      then
        (case circuit self of
           None \<Rightarrow> Inl (AttributeError, self)
         | Some qc \<Rightarrow>
             (case circuit_measure wire_idx wire_idx qc of
                Inl e \<Rightarrow> Inl (e, self)
              | Inr qc' \<Rightarrow> Inr (self\<lparr>circuit := Some qc'\<rparr>, True)))
      else measure_segments sensor_pos wire_idx rest (self, measurements_added))"

fun measure_wires ::
  "point \<Rightarrow> (nat \<times> Wire) list \<Rightarrow> QuantumCircuitDesigner \<times> bool
   \<Rightarrow> (QuantumCircuitDesigner \<times> bool) outcome" where
  "measure_wires sensor_pos [] sm = Inr sm"
| "measure_wires sensor_pos ((wire_idx, wire) # rest) sm =
     (case measure_segments sensor_pos wire_idx (segments wire) sm of
        Inl x \<Rightarrow> Inl x
      | Inr sm' \<Rightarrow> measure_wires sensor_pos rest sm')"

fun measure_sensors ::
  "point list \<Rightarrow> (nat \<times> Wire) list \<Rightarrow> QuantumCircuitDesigner \<times> bool
   \<Rightarrow> (QuantumCircuitDesigner \<times> bool) outcome" where
  "measure_sensors [] ws sm = Inr sm"
| "measure_sensors (sensor_pos # rest) ws sm =
     (case measure_wires sensor_pos ws sm of
        Inl x \<Rightarrow> Inl x
      | Inr sm' \<Rightarrow> measure_sensors rest ws sm')"

definition attach_measurements :: "QuantumCircuitDesigner \<Rightarrow> QuantumCircuitDesigner outcome" where
  "attach_measurements self =
     (case measure_sensors (sensors self) (enumerate 0 (wires self)) (self, False) of
        Inl x \<Rightarrow> Inl x
      | Inr (self', measurements_added) \<Rightarrow>
          if \<not> measurements_added
          then
            (case circuit self' of
               None \<Rightarrow> Inl (AttributeError, self')
             | Some qc \<Rightarrow>
                 (case circuit_measure_all qc of
                    Inl e \<Rightarrow> Inl (e, self')
                  | Inr qc' \<Rightarrow> Inr (self'\<lparr>circuit := Some qc'\<rparr>)))
          else Inr self')"

definition compile_circuit ::
  "(nat set \<Rightarrow> nat list) \<Rightarrow> QuantumCircuitDesigner \<Rightarrow> QuantumCircuitDesigner outcome" where
  "compile_circuit iter self =
     (case compile_gates iter (initialize_circuit self) of
        Inl x \<Rightarrow> Inl x
      | Inr self' \<Rightarrow> attach_measurements self')"

section \<open>Simulation and report\<close>

text \<open>
  What \<^verbatim>\<open>simulate_circuit\<close> calls outside the program: writing the rendering to a file and
  opening a terminal on it, which may raise, and the execution engine, which returns the
  counts of 1000 shots or raises. Writes to the two text widgets do not raise.
\<close>

record environment =
  show_circuit :: "QuantumCircuit option \<Rightarrow> py_error option"
  run_shots :: "QuantumCircuit option \<Rightarrow> py_error + (string \<times> int) list"

definition interpretation_of :: "real \<Rightarrow> string" where
  "interpretation_of prob_0 =
     (if prob_0 > 9 / 10 then ''Definite 0 state''
      else if prob_0 < 1 / 10 then ''Definite 1 state''
      else if 4 / 10 \<le> prob_0 \<and> prob_0 \<le> 6 / 10 then ''Superposition state''
      else ''Mixed state'')"

definition update_sensor_table :: "QuantumCircuitDesigner \<Rightarrow> QuantumCircuitDesigner" where
  "update_sensor_table self =
     (if sensor_data self = [] then self\<lparr>sensor_text := NoMeasurements\<rparr>
      else self\<lparr>sensor_text :=
             MeasurementResults
               (map (\<lambda>(sensor_key, p0, p1). (sensor_key, p0, p1, interpretation_of p0))
                  (sensor_data self))\<rparr>)"

text \<open>The body of the \<^verbatim>\<open>try\<close> of \<^verbatim>\<open>simulate_circuit\<close>, and the whole method.\<close>

definition simulate_try ::
  "environment \<Rightarrow> (nat set \<Rightarrow> nat list) \<Rightarrow> QuantumCircuitDesigner
   \<Rightarrow> QuantumCircuitDesigner outcome" where
  "simulate_try env iter self =
     (case compile_circuit iter self of
        Inl x \<Rightarrow> Inl x
      | Inr self1 \<Rightarrow>
          (case show_circuit env (circuit self1) of
             Some e \<Rightarrow> Inl (e, self1)
           | None \<Rightarrow>
               let self2 = self1\<lparr>circuit_info := CircuitRendering (circuit self1)\<rparr>
               in (case run_shots env (circuit self2) of
                     Inl e \<Rightarrow> Inl (e, self2)
                   | Inr counts \<Rightarrow>
                       (case process_measurement_results counts of
                          Inl e \<Rightarrow> Inl (e, self2)
                        | Inr d \<Rightarrow> Inr (update_sensor_table (self2\<lparr>sensor_data := d\<rparr>))))))"

definition simulate_circuit ::
  "environment \<Rightarrow> (nat set \<Rightarrow> nat list) \<Rightarrow> QuantumCircuitDesigner \<Rightarrow> QuantumCircuitDesigner" where
  "simulate_circuit env iter self =
     (if wires self = [] then self
      else
        (case simulate_try env iter self of
           Inl (e, self') \<Rightarrow> self'\<lparr>circuit_info := ErrorMessage e\<rparr>
         | Inr self' \<Rightarrow> self'))"

text \<open>
  Notions to state what the compiler emits: appending operations to the circuit of a state;
  the measurements of one sensor, one for each wire (in collection order) that the sensor is
  on; those of all sensors; registers wide enough for \<open>n\<close> wires. Then three diagrams: two
  crossing wires with a sensor on the crossing, and two parallel wires with a sensor on the
  first wire, or with a sensor between the wires.
\<close>

definition emit :: "instruction list \<Rightarrow> QuantumCircuitDesigner \<Rightarrow> QuantumCircuitDesigner" where
  "emit ops self = self\<lparr>circuit := map_option (\<lambda>qc. qc\<lparr>data := data qc @ ops\<rparr>) (circuit self)\<rparr>"

definition wire_measurements :: "(nat \<times> Wire) list \<Rightarrow> point \<Rightarrow> instruction list" where
  "wire_measurements iws sensor_pos =
     concat (map (\<lambda>(wire_idx, wire).
                    if on_wire sensor_pos wire then [Measure wire_idx wire_idx] else []) iws)"

definition sensor_measurements :: "Wire list \<Rightarrow> point list \<Rightarrow> instruction list" where
  "sensor_measurements ws sensor_list =
     concat (map (wire_measurements (enumerate 0 ws)) sensor_list)"

definition registers_cover :: "nat \<Rightarrow> QuantumCircuitDesigner \<Rightarrow> bool" where
  "registers_cover n self =
     (case circuit self of
        None \<Rightarrow> False
      | Some qc \<Rightarrow> n \<le> num_qubits qc \<and> n \<le> num_clbits qc)"

definition crossing_state :: QuantumCircuitDesigner where
  "crossing_state =
     \<lparr>wires = [\<lparr>points = [(0, 0), (40, 0)]\<rparr>, \<lparr>points = [(20, -20), (20, 20)]\<rparr>],
      gates = [], sensors = [(20, 0)],
      circuit = Some \<lparr>num_qubits = 2, num_clbits = 2, data = [Reset 0, Reset 1]\<rparr>,
      sensor_data = [], circuit_info = InitialInfo, sensor_text = InitialReport\<rparr>"

definition sensed_state :: QuantumCircuitDesigner where
  "sensed_state =
     \<lparr>wires = demo_wires, gates = [], sensors = [(20, 0)],
      circuit = Some \<lparr>num_qubits = 2, num_clbits = 2, data = [Reset 0, Reset 1]\<rparr>,
      sensor_data = [], circuit_info = InitialInfo, sensor_text = InitialReport\<rparr>"

definition unsensed_state :: QuantumCircuitDesigner where
  "unsensed_state = sensed_state\<lparr>sensors := [(20, 20)]\<rparr>"

text \<open>
  Notions to state what the gate phase emits. For one wire: the number of its segments a
  point is on, the position the code computes for the point, the list \<^verbatim>\<open>wire_gates\<close>, the
  operation of one gate, and the block of operations of the wire (its reset, then its gates
  sorted by position). \<open>ready\<close>: the circuit exists, is not empty and covers the wires.
  \<open>group_order\<close> lists the wires in the order in which the two nested loops process them.
  \<open>ascending\<close> and \<open>descending\<close> are two orders in which a set of wire indices may be
  iterated. Then a diagram of two wires meeting at (100,100) with a CNOT on the middle of
  the first, and a diagram of one bent wire with an H gate.
\<close>

definition matching_segments :: "point \<Rightarrow> Wire \<Rightarrow> nat" where
  "matching_segments p wire =
     length (filter (\<lambda>(p1, p2). point_on_line_segment p p1 p2) (segments wire))"

definition position_of :: "Wire \<Rightarrow> point \<Rightarrow> real" where
  "position_of wire p = (case get_position_along_wire p wire of Inl e \<Rightarrow> 0 | Inr a \<Rightarrow> a)"

definition wire_gate_list :: "Gate list \<Rightarrow> Wire \<Rightarrow> (Gate \<times> real) list" where
  "wire_gate_list gs wire =
     concat (map (\<lambda>g. replicate (matching_segments (pos g) wire) (g, position_of wire (pos g))) gs)"

definition gate_operation :: "nat \<Rightarrow> string \<Rightarrow> nat \<Rightarrow> instruction list" where
  "gate_operation n gate_type wire_idx =
     (if gate_type = ''H'' then [H wire_idx]
      else if gate_type = ''X'' then [X wire_idx]
      else if gate_type = ''Y'' then [Y wire_idx]
      else if gate_type = ''Z'' then [Z wire_idx]
      else if gate_type = ''CNOT'' \<and> Suc wire_idx < n then [CX wire_idx (wire_idx + 1)]
      else [])"

definition wire_block :: "QuantumCircuitDesigner \<Rightarrow> nat \<Rightarrow> instruction list" where
  "wire_block self wire_idx =
     Reset wire_idx #
     concat (map (\<lambda>ga. gate_operation (length (wires self)) (type (fst ga)) wire_idx)
               (sort_key snd (wire_gate_list (gates self) (wires self ! wire_idx))))"

definition ready :: "QuantumCircuitDesigner \<Rightarrow> bool" where
  "ready self =
     (case circuit self of
        None \<Rightarrow> False
      | Some qc \<Rightarrow> data qc \<noteq> [] \<and> length (wires self) \<le> num_qubits qc)"

fun group_order :: "(nat set \<Rightarrow> nat list) \<Rightarrow> nat set list \<Rightarrow> nat list \<Rightarrow> nat set \<Rightarrow> nat list" where
  "group_order iter conns [] processed = []"
| "group_order iter conns (wire_idx # rest) processed =
     (if wire_idx \<in> processed then group_order iter conns rest processed
      else
        (case get_connected_wires iter wire_idx conns of
           Inl e \<Rightarrow> []
         | Inr connected_group \<Rightarrow>
             iter connected_group
             @ group_order iter conns rest (processed \<union> set (iter connected_group))))"

definition ascending :: "nat \<Rightarrow> nat set \<Rightarrow> nat list" where
  "ascending n S = filter (\<lambda>i. i \<in> S) [0 ..< n]"




definition h_gate :: Gate where
  "h_gate = \<lparr>type = ''H'', pos = (220, 0)\<rparr>"

definition double_state :: QuantumCircuitDesigner where
  "double_state =
     \<lparr>wires = [bent_wire], gates = [h_gate], sensors = [],
      circuit = Some \<lparr>num_qubits = 1, num_clbits = 1, data = []\<rparr>,
      sensor_data = [], circuit_info = InitialInfo, sensor_text = InitialReport\<rparr>"

text \<open>
  Notions to state what a failed simulation leaves behind: two states with the same sensor
  data and sensor report; the state an outcome ends in, raised or returned. Then an engine
  that raises on every run, and a state with one wire that shows an earlier result.
\<close>

definition kept :: "QuantumCircuitDesigner \<Rightarrow> QuantumCircuitDesigner \<Rightarrow> bool" where
  "kept self self' \<longleftrightarrow>
     sensor_data self' = sensor_data self \<and> sensor_text self' = sensor_text self"

definition state_of :: "'a outcome \<Rightarrow> ('a \<Rightarrow> QuantumCircuitDesigner) \<Rightarrow> QuantumCircuitDesigner" where
  "state_of r f = (case r of Inl (e, s) \<Rightarrow> s | Inr x \<Rightarrow> f x)"

definition failing_engine :: environment where
  "failing_engine = \<lparr>show_circuit = (\<lambda>c. None), run_shots = (\<lambda>c. Inl ExecutionError)\<rparr>"

definition reported_state :: QuantumCircuitDesigner where
  "reported_state =
     \<lparr>wires = [straight_wire], gates = [], sensors = [], circuit = None,
      sensor_data = [(0, (1 / 2, 1 / 2))], circuit_info = InitialInfo,
      sensor_text = MeasurementResults [(0, 1 / 2, 1 / 2, ''Superposition state'')]\<rparr>"

text \<open>
  Notions to state what the whole compilation leaves in the circuit: the operations that
  \<^verbatim>\<open>measure_all()\<close> appends to a circuit of \<open>n\<close> qubits and \<open>n\<close> classical bits, and the
  circuit after the gate operations \<open>gate_ops\<close> and the sensor measurements \<open>ms\<close>, with the
  fallback when there are none.
\<close>

definition measure_all_operations :: "nat \<Rightarrow> instruction list" where
  "measure_all_operations n = Barrier # map (\<lambda>q. Measure q (n + q)) [0 ..< n]"

definition compiled :: "nat \<Rightarrow> instruction list \<Rightarrow> instruction list \<Rightarrow> QuantumCircuit" where
  "compiled n gate_ops ms =
     (if ms = []
      then \<lparr>num_qubits = n, num_clbits = n + n, data = gate_ops @ measure_all_operations n\<rparr>
      else \<lparr>num_qubits = n, num_clbits = n, data = gate_ops @ ms\<rparr>)"

section \<open>The distance function\<close>

text \<open>
  C10. \<^verbatim>\<open>point_to_line_distance\<close> never returns \<^verbatim>\<open>float("inf")\<close>: when the two endpoints
  are equal it returns the Euclidean distance to that point; the denominator is zero exactly
  when the endpoints coincide, a case taken by the first branch; so the result is always a
  finite, non-negative number.
\<close>

theorem point_to_line_distance_finite:
  "point_to_line_distance p a b \<noteq> Infinity
   \<and> (\<exists>d. point_to_line_distance p a b = Finite d \<and> 0 \<le> d)
   \<and> point_to_line_distance (x0, y0) (x1, y1) (x1, y1)
       = Finite (sqrt (real_of_int ((x0 - x1)\<^sup>2 + (y0 - y1)\<^sup>2)))
   \<and> (sqrt (real_of_int ((y2 - y1)\<^sup>2 + (x2 - x1)\<^sup>2)) = 0 \<longleftrightarrow> (x1, y1) = (x2, y2))"
proof -
  have den: "sqrt (real_of_int ((v2 - v1)\<^sup>2 + (u2 - u1)\<^sup>2)) = 0 \<longleftrightarrow> (u1, v1) = (u2, v2)"
    for u1 v1 u2 v2 :: int
  proof -
    have "sqrt (real_of_int ((v2 - v1)\<^sup>2 + (u2 - u1)\<^sup>2)) = 0
          \<longleftrightarrow> (v2 - v1)\<^sup>2 + (u2 - u1)\<^sup>2 = 0"
      by simp
    also have "\<dots> \<longleftrightarrow> v2 - v1 = 0 \<and> u2 - u1 = 0"
      by (rule sum_power2_eq_zero_iff)
    also have "\<dots> \<longleftrightarrow> (u1, v1) = (u2, v2)"
      by auto
    finally show ?thesis .
  qed
  obtain px py ax ay bx "by" where pab: "p = (px, py)" "a = (ax, ay)" "b = (bx, by)"
    by (cases p, cases a, cases b) blast
  have fin: "\<exists>d. point_to_line_distance p a b = Finite d \<and> 0 \<le> d"
  proof (cases "(ax, ay) = (bx, by)")
    case True
    then show ?thesis
      by (simp add: point_to_line_distance_def pab)
  next
    case False
    then have "sqrt (real_of_int ((by - ay)\<^sup>2 + (bx - ax)\<^sup>2)) \<noteq> 0"
      using den [of "by" ay bx ax] by simp
    with False show ?thesis
      by (simp add: point_to_line_distance_def pab Let_def)
  qed
  then have "point_to_line_distance p a b \<noteq> Infinity"
    by auto
  moreover have "point_to_line_distance (x0, y0) (x1, y1) (x1, y1)
       = Finite (sqrt (real_of_int ((x0 - x1)\<^sup>2 + (y0 - y1)\<^sup>2)))"
    by (simp add: point_to_line_distance_def)
  ultimately show ?thesis
    using fin den [of y2 y1 x2 x1] by blast
qed

section \<open>CNOT on the last wire\<close>



section \<open>Probabilities of the result aggregator\<close>

lemma add_bit_keys:
  "fst ` set (add_bit p (k, b) d) = insert k (fst ` set d)"
  by (auto simp: add_bit_def Let_def dom_update split: option.splits prod.splits
      dest: map_of_SomeD intro: rev_image_eqI)

lemma add_bit_distinct:
  "distinct (map fst d) \<Longrightarrow> distinct (map fst (add_bit p (k, b) d))"
  by (auto simp: add_bit_def Let_def distinct_update split: option.splits prod.splits)

lemma add_bit_sum:
  "b = CHR ''0'' \<or> b = CHR ''1'' \<Longrightarrow>
   bucket_sum (add_bit p (k, b) d) i = bucket_sum d i + (if i = k then p else 0)"
  by (auto simp: add_bit_def bucket_sum_def Let_def update_conv' split: option.splits prod.splits)

lemma fold_add_bit_keys:
  "fst ` set (fold (add_bit p) (enumerate k bits) d) = fst ` set d \<union> {k ..< k + length bits}"
proof (induction bits arbitrary: k d)
  case Nil
  then show ?case by simp
next
  case (Cons b bits)
  show ?case
    by (auto simp: Cons.IH add_bit_keys)
qed

lemma fold_add_bit_distinct:
  "distinct (map fst d) \<Longrightarrow> distinct (map fst (fold (add_bit p) (enumerate k bits) d))"
  by (induction bits arbitrary: k d) (simp_all add: add_bit_distinct)

lemma fold_add_bit_sum:
  "binary bits \<Longrightarrow>
   bucket_sum (fold (add_bit p) (enumerate k bits) d) i
     = bucket_sum d i + (if k \<le> i \<and> i < k + length bits then p else 0)"
proof (induction bits arbitrary: k d)
  case Nil
  then show ?case by simp
next
  case (Cons b bits)
  then have b: "b = CHR ''0'' \<or> b = CHR ''1''" and bs: "binary bits"
    by (simp_all add: binary_def)
  show ?case
    using Cons.IH [OF bs, of "Suc k" "add_bit p (k, b) d"] add_bit_sum [OF b, of p k d i]
    by auto
qed

lemma process_items_returns:
  "tot \<noteq> 0 \<Longrightarrow> \<exists>d'. process_items tot items d = Inr d'"
  by (induction items arbitrary: d) (auto simp: true_div_def Let_def)

lemma process_items_sums:
  assumes "tot \<noteq> 0"
    and "uniform_counts L items"
    and "distinct (map fst d)"
  shows "\<exists>d'. process_items tot items d = Inr d'
          \<and> distinct (map fst d')
          \<and> fst ` set d' = fst ` set d \<union> (if items = [] then {} else {0 ..< L})
          \<and> (\<forall>i. bucket_sum d' i = bucket_sum d i
                 + (if i < L then real_of_int (sum_list (map snd items)) / real_of_int tot else 0))"
  using assms(2,3)
proof (induction items arbitrary: d)
  case Nil
  then show ?case by simp
next
  case (Cons item items)
  obtain bs c where item: "item = (bs, c)" by (cases item)
  let ?p = "real_of_int c / real_of_int tot"
  let ?d1 = "fold (add_bit ?p) (enumerate 0 (join_split bs)) d"
  from Cons.prems item have len: "length (join_split bs) = L" and bin: "binary (join_split bs)"
    and rest: "uniform_counts L items"
    by (auto simp: uniform_counts_def)
  have d1: "distinct (map fst ?d1)"
    using Cons.prems(2) by (rule fold_add_bit_distinct)
  from Cons.IH [OF rest d1] obtain d' where d':
    "process_items tot items ?d1 = Inr d'" "distinct (map fst d')"
    "fst ` set d' = fst ` set ?d1 \<union> (if items = [] then {} else {0 ..< L})"
    "\<forall>i. bucket_sum d' i = bucket_sum ?d1 i
        + (if i < L then real_of_int (sum_list (map snd items)) / real_of_int tot else 0)"
    by blast
  have run: "process_items tot (item # items) d = Inr d'"
    using d'(1) assms(1) by (simp add: item true_div_def)
  have keys: "fst ` set d' = fst ` set d \<union> {0 ..< L}"
    using d'(3) by (auto simp: fold_add_bit_keys len)
  have sums: "bucket_sum d' i = bucket_sum d i
        + (if i < L then real_of_int (sum_list (map snd (item # items))) / real_of_int tot else 0)"
    for i
    using d'(4) fold_add_bit_sum [OF bin, of ?p 0 d i]
    by (simp add: len item add_divide_distrib)
  show ?case
    using run d'(2) keys sums by simp
qed

text \<open>
  C9. \<^verbatim>\<open>MeasurementCounts\<close> is what the engine returns for one circuit: every key is a
  bitstring with one character, \<^verbatim>\<open>0\<close> or \<^verbatim>\<open>1\<close>, for each of the \<open>L\<close> classical bits of the
  circuit (registers are separated by a blank, which the aggregator drops). For such counts,
  non-empty and with a nonzero total, the aggregator returns a result with exactly the
  buckets \<open>0, \<dots>, L - 1\<close>, and in every bucket the two probabilities sum to 1 (floats read
  as exact reals). For empty counts or a zero total it returns the empty result; the
  division is not reached.
\<close>

theorem probabilities_sum_to_one:
  "(counts = [] \<or> sum_list (map snd counts) = 0 \<longrightarrow>
        process_measurement_results counts = Inr [])
   \<and> (counts \<noteq> [] \<and> sum_list (map snd counts) \<noteq> 0 \<and> uniform_counts L counts \<longrightarrow>
        (\<exists>d. process_measurement_results counts = Inr d
           \<and> fst ` set d = {0 ..< L}
           \<and> (\<forall>(i, p0, p1) \<in> set d. p0 + p1 = 1)))"
proof -
  let ?tot = "sum_list (map snd counts)"
  have empty: "process_measurement_results counts = Inr []" if "counts = [] \<or> ?tot = 0"
    using that by (auto simp: process_measurement_results_def Let_def)
  have sums: "\<exists>d. process_measurement_results counts = Inr d
           \<and> fst ` set d = {0 ..< L} \<and> (\<forall>(i, p0, p1) \<in> set d. p0 + p1 = 1)"
    if ne: "counts \<noteq> []" and tot: "?tot \<noteq> 0" and uni: "uniform_counts L counts"
  proof -
    from process_items_sums [OF tot uni, of "[]"] obtain d where d:
      "process_items ?tot counts [] = Inr d" "distinct (map fst d)"
      "fst ` set d = {0 ..< L}"
      "\<forall>i. bucket_sum d i = bucket_sum [] i
          + (if i < L then real_of_int ?tot / real_of_int ?tot else 0)"
      using ne by auto
    have "p0 + p1 = 1" if "(i, p0, p1) \<in> set d" for i p0 p1
    proof -
      from that d(3) have "i < L" by force
      moreover from that d(2) have "map_of d i = Some (p0, p1)" by simp
      ultimately show ?thesis
        using d(4) [rule_format, of i] tot by (simp add: bucket_sum_def)
    qed
    then show ?thesis
      using d(1,3) ne tot by (auto simp: process_measurement_results_def Let_def)
  qed
  show ?thesis
    using empty sums by blast
qed

theorem probabilities_sum_to_one_witness:
  "process_measurement_results [] = Inr []
   \<and> process_measurement_results [(''0'', 0)] = Inr []
   \<and> (\<exists>d. process_measurement_results [(''0 1'', 500), (''10'', 500)] = Inr d
         \<and> fst ` set d = {0 ..< 2}
         \<and> (\<forall>(i, p0, p1) \<in> set d. p0 + p1 = 1))"
  using probabilities_sum_to_one [of "[]" 0]
    probabilities_sum_to_one [of "[(''0'', 0)]" 1]
    probabilities_sum_to_one [of "[(''0 1'', 500), (''10'', 500)]" 2]
  by (simp add: uniform_counts_def binary_def join_split_def is_space_def)

section \<open>Wire connectivity is symmetric and transitively closed\<close>

lemma endpoints_nonempty:
  "points wire \<noteq> [] \<Longrightarrow> endpoints wire = Inr [hd (points wire), last (points wire)]"
  by (cases "points wire") (simp_all add: endpoints_def)

lemma point_near_pos_sym: "point_near_pos p q t = point_near_pos q p t"
proof -
  have "(a - b) * (a - b) = (b - a) * (b - a)" for a b :: int
    by (simp add: algebra_simps)
  then show ?thesis
    by (simp add: point_near_pos_def Let_def)
qed

lemma endpoints_coincide_sym: "endpoints_coincide w1 w2 = endpoints_coincide w2 w1"
  unfolding endpoints_coincide_def
  by (simp add: point_near_pos_sym [of "hd (points w1)"] point_near_pos_sym [of "last (points w1)"]
      disj_ac)

lemma scan_wires_step:
  assumes "points wire1 \<noteq> []" and "points wire2 \<noteq> []"
  shows "scan_wires i wire1 ((j, wire2) # rest) acc
         = scan_wires i wire1 rest
             (if i \<noteq> j \<and> endpoints_coincide wire1 wire2 then insert j acc else acc)"
  using assms by (simp add: endpoints_nonempty endpoints_coincide_def)

lemma scan_wires_result:
  assumes "points wire1 \<noteq> []" and "\<forall>w \<in> set ws. points w \<noteq> []"
  shows "scan_wires i wire1 (enumerate k ws) acc
         = Inr (acc \<union> {j. k \<le> j \<and> j < k + length ws \<and> i \<noteq> j
                         \<and> endpoints_coincide wire1 (ws ! (j - k))})"
  using assms(2)
proof (induction ws arbitrary: k acc)
  case Nil
  then show ?case by auto
next
  case (Cons w ws)
  let ?acc = "if i \<noteq> k \<and> endpoints_coincide wire1 w then insert k acc else acc"
  have w: "points w \<noteq> []" and ws: "\<forall>w \<in> set ws. points w \<noteq> []"
    using Cons.prems by simp_all
  have "scan_wires i wire1 (enumerate k (w # ws)) acc = scan_wires i wire1 (enumerate (Suc k) ws) ?acc"
    using scan_wires_step [OF assms(1) w] by simp
  also have "\<dots> = Inr (?acc \<union> {j. Suc k \<le> j \<and> j < Suc k + length ws \<and> i \<noteq> j
                         \<and> endpoints_coincide wire1 (ws ! (j - Suc k))})"
    by (rule Cons.IH [OF ws])
  also have "?acc \<union> {j. Suc k \<le> j \<and> j < Suc k + length ws \<and> i \<noteq> j
                         \<and> endpoints_coincide wire1 (ws ! (j - Suc k))}
      = acc \<union> {j. k \<le> j \<and> j < k + length (w # ws) \<and> i \<noteq> j
                         \<and> endpoints_coincide wire1 ((w # ws) ! (j - k))}" (is "?L = ?R")
  proof (rule set_eqI)
    fix j
    show "j \<in> ?L \<longleftrightarrow> j \<in> ?R"
    proof (cases "j = k")
      case True
      then show ?thesis by simp
    next
      case False
      then have "Suc k \<le> j \<longleftrightarrow> k \<le> j" by arith
      moreover have "k \<le> j \<Longrightarrow> (w # ws) ! (j - k) = ws ! (j - Suc k)"
        using False by (simp add: nth_Cons')
      ultimately show ?thesis using False by auto
    qed
  qed
  finally show ?case .
qed

lemma find_connections_loop_result:
  assumes "\<forall>w \<in> set ws. points w \<noteq> []" and "set rest \<subseteq> set ws"
  shows "find_connections_loop ws (enumerate k rest) connections
         = Inr (connections @ map (\<lambda>(i, wire1). {j. j < length ws \<and> i \<noteq> j
                         \<and> endpoints_coincide wire1 (ws ! j)}) (enumerate k rest))"
  using assms(2)
proof (induction rest arbitrary: k connections)
  case Nil
  then show ?case by simp
next
  case (Cons w rest)
  then have w: "points w \<noteq> []" and rest: "set rest \<subseteq> set ws"
    using assms(1) by auto
  have "scan_wires k w (enumerate 0 ws) {}
        = Inr {j. j < length ws \<and> k \<noteq> j \<and> endpoints_coincide w (ws ! j)}"
    using scan_wires_result [OF w assms(1), of k 0 "{}"] by simp
  then show ?case
    using Cons.IH [OF rest, of "Suc k"] by simp
qed

lemma find_wire_connections_result:
  assumes "\<forall>w \<in> set (wires self). points w \<noteq> []"
  shows "\<exists>conns. find_wire_connections self = Inr conns
           \<and> length conns = length (wires self)
           \<and> (\<forall>i < length (wires self). conns ! i
                = {j. j < length (wires self) \<and> i \<noteq> j
                      \<and> endpoints_coincide (wires self ! i) (wires self ! j)})"
proof -
  let ?ws = "wires self"
  let ?f = "\<lambda>(i, wire1). {j. j < length ?ws \<and> i \<noteq> j \<and> endpoints_coincide wire1 (?ws ! j)}"
  have run: "find_wire_connections self = Inr (map ?f (enumerate 0 ?ws))"
    using find_connections_loop_result [OF assms subset_refl, of 0 "[]"]
    by (simp add: find_wire_connections_def)
  have "map ?f (enumerate 0 ?ws) ! i
          = {j. j < length ?ws \<and> i \<noteq> j \<and> endpoints_coincide (?ws ! i) (?ws ! j)}"
    if "i < length ?ws" for i
    using that by (simp add: nth_enumerate_eq)
  with run show ?thesis by simp
qed

lemma search_inv_step:
  assumes inv: "search_inv conns reached stack visited" and ne: "stack \<noteq> []"
    and new: "set new = conns ! last stack - reached" and dist: "distinct new"
  shows "search_inv conns (reached \<union> conns ! last stack) (butlast stack @ new)
           (visited @ [last stack])"
proof -
  obtain bs x where stack: "stack = bs @ [x]"
    using ne by (metis append_butlast_last_id)
  have d: "distinct (visited @ bs @ [x])" and s: "set (visited @ bs @ [x]) = reached"
    and c: "\<forall>y \<in> set visited. conns ! y \<subseteq> reached"
    using inv by (simp_all add: search_inv_def stack)
  have new': "set new = conns ! x - reached"
    using new by (simp add: stack)
  have "distinct ((visited @ [x]) @ bs @ new)"
    using d dist new' s by auto
  moreover have "set ((visited @ [x]) @ bs @ new) = reached \<union> conns ! x"
    using s new' by auto
  moreover have "\<forall>y \<in> set (visited @ [x]). conns ! y \<subseteq> reached \<union> conns ! x"
    using c by auto
  ultimately show ?thesis
    by (simp add: search_inv_def stack)
qed

lemma search_result:
  assumes "graph_ok iter conns" and "search_inv conns (fst cs) (snd cs) visited"
    and "fst cs \<subseteq> {..< length conns}" and "fst cs \<subseteq> R"
    and "\<forall>x \<in> R. x < length conns \<longrightarrow> conns ! x \<subseteq> R"
  shows "\<exists>group vis. search iter conns cs visited = Inr (group, vis)
           \<and> fst cs \<subseteq> group \<and> group \<subseteq> R \<and> group \<subseteq> {..< length conns}
           \<and> distinct vis \<and> set vis = group \<and> (\<forall>x \<in> group. conns ! x \<subseteq> group)"
  using assms
proof (induction iter conns cs visited rule: search.induct)
  case (1 iter conns reached stack visited)
  have inv: "search_inv conns reached stack visited" and rng: "reached \<subseteq> {..< length conns}"
    and inR: "reached \<subseteq> R"
    using "1.prems" by simp_all
  show ?case
  proof (cases "stack = []")
    case True
    then have "search iter conns (reached, stack) visited = Inr (reached, visited)"
      by (simp add: search.simps)
    moreover have "distinct visited" "set visited = reached" "\<forall>x \<in> reached. conns ! x \<subseteq> reached"
      using inv True by (auto simp: search_inv_def)
    ultimately show ?thesis
      using rng inR by simp
  next
    case False
    let ?x = "last stack"
    let ?N = "conns ! ?x"
    have "?x \<in> reached"
      using inv False by (auto simp: search_inv_def)
    with rng have lt: "?x < length conns" by auto
    have N: "set (iter ?N) = ?N" "?N \<subseteq> {..< length conns}"
      using "1.prems"(1) lt by (simp_all add: graph_ok_def)
    from visit_neighbors_result [of "iter ?N" reached "butlast stack"] obtain new where new:
      "visit_neighbors (iter ?N) (reached, butlast stack) = (reached \<union> ?N, butlast stack @ new)"
      "set new = ?N - reached" "distinct new"
      unfolding N(1) by (elim exE conjE)
    have inv': "search_inv conns (reached \<union> ?N) (butlast stack @ new) (visited @ [?x])"
      using inv False new(2,3) by (rule search_inv_step)
    have rng': "reached \<union> ?N \<subseteq> {..< length conns}"
      using rng N(2) by simp
    have inR': "reached \<union> ?N \<subseteq> R"
      using inR "1.prems"(5) \<open>?x \<in> reached\<close> lt by auto
    have unfold: "search iter conns (reached, stack) visited
        = search iter conns (visit_neighbors (iter ?N) (reached, butlast stack)) (visited @ [?x])"
      using False lt by (simp add: search.simps [of iter conns reached stack] Let_def)
    from "1.IH" [OF False refl lt "1.prems"(1) _ _ _ "1.prems"(5)] inv' rng' inR'
    obtain group vis where
      "search iter conns (visit_neighbors (iter ?N) (reached, butlast stack)) (visited @ [?x])
         = Inr (group, vis)"
      "reached \<union> ?N \<subseteq> group" "group \<subseteq> R" "group \<subseteq> {..< length conns}"
      "distinct vis" "set vis = group" "\<forall>x \<in> group. conns ! x \<subseteq> group"
      unfolding new(1) by auto
    then show ?thesis
      unfolding unfold by auto
  qed
qed

lemma search_from_start:
  assumes ok: "graph_ok iter conns" and a: "a < length conns"
  shows "\<exists>group visited. search iter conns ({a}, [a]) [] = Inr (group, visited)
           \<and> group = (wire_edges conns)\<^sup>* `` {a} \<and> distinct visited \<and> set visited = group"
proof -
  let ?R = "(wire_edges conns)\<^sup>* `` {a}"
  have closed: "\<forall>x \<in> ?R. x < length conns \<longrightarrow> conns ! x \<subseteq> ?R"
  proof (intro ballI impI subsetI)
    fix x y
    assume "x \<in> ?R" and "x < length conns" and "y \<in> conns ! x"
    then have "(a, x) \<in> (wire_edges conns)\<^sup>*" and "(x, y) \<in> wire_edges conns"
      by (simp_all add: wire_edges_def)
    then have "(a, y) \<in> (wire_edges conns)\<^sup>*"
      by (rule rtrancl_into_rtrancl)
    then show "y \<in> ?R" by simp
  qed
  have inv: "search_inv conns (fst ({a}, [a])) (snd ({a}, [a])) []"
    by (simp add: search_inv_def)
  have rng: "fst ({a}, [a]) \<subseteq> {..< length conns}" and inR: "fst ({a}, [a]) \<subseteq> ?R"
    using a by simp_all
  from search_result [OF ok inv rng inR closed] obtain group vis where g:
    "search iter conns ({a}, [a]) [] = Inr (group, vis)"
    "a \<in> group" "group \<subseteq> ?R" "distinct vis" "set vis = group"
    "\<forall>x \<in> group. conns ! x \<subseteq> group"
    by auto
  have "y \<in> group" if "(a, y) \<in> (wire_edges conns)\<^sup>*" for y
    using that
  proof (induction rule: rtrancl_induct)
    case base
    show ?case by (rule g(2))
  next
    case (step y z)
    then have "z \<in> conns ! y" by (simp add: wire_edges_def)
    with step.IH g(6) show ?case by blast
  qed
  then have "?R \<subseteq> group" by auto
  with g(3) have "group = ?R" by (rule equalityI)
  with g(1,4,5) show ?thesis by blast
qed

text \<open>
  C7. For wires with at least one point each, and whatever the order in which sets are
  iterated: the resolver returns one set per wire; \<open>j\<close> is in the set of \<open>i\<close> exactly when
  \<open>i \<noteq> j\<close> and an endpoint of wire \<open>i\<close> is near an endpoint of wire \<open>j\<close>; this relation
  is symmetric; the connected group of a wire is exactly the set of wires reachable from it,
  so that it contains \<open>c\<close> whenever \<open>a\<close> is connected to \<open>b\<close> and \<open>b\<close> to \<open>c\<close>; and the
  search pops every node of the group exactly once.
\<close>

theorem wire_connectivity:
  assumes wf: "\<forall>w \<in> set (wires self). points w \<noteq> []"
    and iter: "\<forall>S. finite S \<longrightarrow> set (iter S) = S"
  shows "\<exists>conns. find_wire_connections self = Inr conns
     \<and> length conns = length (wires self)
     \<and> (\<forall>i < length conns. \<forall>j < length conns.
           (j \<in> conns ! i) = (i \<noteq> j \<and> endpoints_coincide (wires self ! i) (wires self ! j)))
     \<and> (\<forall>i < length conns. \<forall>j < length conns. (j \<in> conns ! i) = (i \<in> conns ! j))
     \<and> (\<forall>a < length conns. \<exists>group visited.
           search iter conns ({a}, [a]) [] = Inr (group, visited)
         \<and> get_connected_wires iter a conns = Inr group
         \<and> group = (wire_edges conns)\<^sup>* `` {a}
         \<and> (\<forall>b c. b \<in> conns ! a \<and> c \<in> conns ! b \<longrightarrow> c \<in> group)
         \<and> distinct visited \<and> set visited = group)"
proof -
  let ?n = "length (wires self)"
  from find_wire_connections_result [OF wf] obtain conns where conns:
    "find_wire_connections self = Inr conns" "length conns = ?n"
    "\<forall>i < ?n. conns ! i = {j. j < ?n \<and> i \<noteq> j
        \<and> endpoints_coincide (wires self ! i) (wires self ! j)}"
    by blast
  have char: "(j \<in> conns ! i) = (i \<noteq> j \<and> endpoints_coincide (wires self ! i) (wires self ! j))"
    if "i < ?n" "j < ?n" for i j
    using that conns(3) by simp
  have sym: "(j \<in> conns ! i) = (i \<in> conns ! j)" if "i < ?n" "j < ?n" for i j
    using char [OF that] char [OF that(2,1)]
      endpoints_coincide_sym [of "wires self ! i" "wires self ! j"] by auto
  have rng: "conns ! i \<subseteq> {..< ?n}" if "i < ?n" for i
    using that conns(3) by auto
  have ok: "graph_ok iter conns"
    unfolding graph_ok_def
  proof (intro allI impI conjI)
    fix i assume i: "i < length conns"
    then have "finite (conns ! i)"
      using rng [of i] conns(2) by (auto intro: finite_subset)
    with iter show "set (iter (conns ! i)) = conns ! i" by blast
    show "conns ! i \<subseteq> {..< length conns}"
      using rng [of i] i conns(2) by simp
  qed
  have group: "\<exists>group visited.
           search iter conns ({a}, [a]) [] = Inr (group, visited)
         \<and> get_connected_wires iter a conns = Inr group
         \<and> group = (wire_edges conns)\<^sup>* `` {a}
         \<and> (\<forall>b c. b \<in> conns ! a \<and> c \<in> conns ! b \<longrightarrow> c \<in> group)
         \<and> distinct visited \<and> set visited = group" if a: "a < length conns" for a
  proof -
    from search_from_start [OF ok a] obtain group visited where g:
      "search iter conns ({a}, [a]) [] = Inr (group, visited)"
      "group = (wire_edges conns)\<^sup>* `` {a}" "distinct visited" "set visited = group"
      by blast
    have get: "get_connected_wires iter a conns = Inr group"
      by (simp add: get_connected_wires_def g(1))
    have "c \<in> group" if "b \<in> conns ! a" "c \<in> conns ! b" for b c
    proof -
      have "b < length conns"
        using rng [of a] a that(1) conns(2) by auto
      with that a have "(a, b) \<in> wire_edges conns" "(b, c) \<in> wire_edges conns"
        by (simp_all add: wire_edges_def)
      then have "(a, c) \<in> (wire_edges conns)\<^sup>*" by auto
      then show ?thesis by (simp add: g(2))
    qed
    with g get show ?thesis by blast
  qed
  show ?thesis
    using conns(1,2) char sym group by (intro exI [of _ conns]) simp
qed

theorem wire_connectivity_witness:
  "\<exists>conns group. find_wire_connections chain_state = Inr conns
     \<and> 1 \<in> conns ! 0 \<and> 2 \<in> conns ! 1 \<and> 2 \<notin> conns ! 0 \<and> 0 \<in> conns ! 1
     \<and> get_connected_wires sorted_list_of_set 0 conns = Inr group \<and> 2 \<in> group"
proof -
  have wf: "\<forall>w \<in> set (wires chain_state). points w \<noteq> []"
    by (simp add: chain_state_def chain_wires_def)
  have iter: "\<forall>S :: nat set. finite S \<longrightarrow> set (sorted_list_of_set S) = S"
    by simp
  from wire_connectivity [OF wf iter] obtain conns where conns:
    "find_wire_connections chain_state = Inr conns" "length conns = length (wires chain_state)"
    "\<forall>i < length conns. \<forall>j < length conns.
       (j \<in> conns ! i) = (i \<noteq> j \<and> endpoints_coincide (wires chain_state ! i) (wires chain_state ! j))"
    "\<forall>a < length conns. \<exists>group visited.
           search sorted_list_of_set conns ({a}, [a]) [] = Inr (group, visited)
         \<and> get_connected_wires sorted_list_of_set a conns = Inr group
         \<and> group = (wire_edges conns)\<^sup>* `` {a}
         \<and> (\<forall>b c. b \<in> conns ! a \<and> c \<in> conns ! b \<longrightarrow> c \<in> group)
         \<and> distinct visited \<and> set visited = group"
    by blast
  have len: "length conns = 3"
    using conns(2) by (simp add: chain_state_def chain_wires_def)
  have e01: "1 \<in> conns ! 0" and e12: "2 \<in> conns ! 1" and e02: "2 \<notin> conns ! 0"
    and e10: "0 \<in> conns ! 1"
    using conns(3) [rule_format, of 0 1] conns(3) [rule_format, of 1 2]
      conns(3) [rule_format, of 0 2] conns(3) [rule_format, of 1 0] len
    by (simp_all add: chain_state_def chain_wires_def endpoints_coincide_def point_near_pos_def)
  from conns(4) [rule_format, of 0] len obtain group where
    "get_connected_wires sorted_list_of_set 0 conns = Inr group"
    "\<forall>b c. b \<in> conns ! 0 \<and> c \<in> conns ! b \<longrightarrow> c \<in> group"
    by auto
  with e01 e12 e02 e10 conns(1) show ?thesis by blast
qed

section \<open>Position along a wire: last matching segment\<close>

lemma lengths_sum_snoc:
  "lengths_sum (segs @ [(p1, p2)]) = lengths_sum segs + segment_length p1 p2"
  by (simp add: lengths_sum_def)

lemma last_matching_snoc:
  "last_matching p (segs @ [(p1, p2)])
     = (if point_on_line_segment p p1 p2 then Some (length segs) else last_matching p segs)"
proof -
  have "filter (\<lambda>k. point_on_line_segment p (fst ((segs @ [(p1, p2)]) ! k))
                     (snd ((segs @ [(p1, p2)]) ! k))) (rev [0 ..< length segs])
        = filter (\<lambda>k. point_on_line_segment p (fst (segs ! k)) (snd (segs ! k)))
            (rev [0 ..< length segs])"
    by (rule filter_cong) (simp_all add: nth_append)
  then show ?thesis
    by (simp add: last_matching_def)
qed

lemma last_matching_Some:
  "last_matching p segs = Some k \<longleftrightarrow>
     k < length segs \<and> point_on_line_segment p (fst (segs ! k)) (snd (segs ! k))
     \<and> (\<forall>j. k < j \<and> j < length segs \<longrightarrow>
            \<not> point_on_line_segment p (fst (segs ! j)) (snd (segs ! j)))"
proof (induction segs rule: rev_induct)
  case Nil
  show ?case by (simp add: last_matching_def)
next
  case (snoc s segs)
  obtain p1 p2 where s: "s = (p1, p2)" by (cases s)
  show ?case
  proof (cases "point_on_line_segment p p1 p2")
    case True
    have "k < Suc (length segs) \<and> point_on_line_segment p (fst ((segs @ [s]) ! k)) (snd ((segs @ [s]) ! k))
     \<and> (\<forall>j. k < j \<and> j < Suc (length segs) \<longrightarrow>
            \<not> point_on_line_segment p (fst ((segs @ [s]) ! j)) (snd ((segs @ [s]) ! j)))
      \<longleftrightarrow> k = length segs"
    proof
      assume a: "k < Suc (length segs) \<and> point_on_line_segment p (fst ((segs @ [s]) ! k)) (snd ((segs @ [s]) ! k))
     \<and> (\<forall>j. k < j \<and> j < Suc (length segs) \<longrightarrow>
            \<not> point_on_line_segment p (fst ((segs @ [s]) ! j)) (snd ((segs @ [s]) ! j)))"
      show "k = length segs"
      proof (rule ccontr)
        assume "k \<noteq> length segs"
        with a have k: "k < length segs" by simp
        from a have "\<forall>j. k < j \<and> j < Suc (length segs) \<longrightarrow>
            \<not> point_on_line_segment p (fst ((segs @ [s]) ! j)) (snd ((segs @ [s]) ! j))"
          by (elim conjE)
        from this [rule_format, of "length segs"] k
        have "\<not> point_on_line_segment p (fst ((segs @ [s]) ! length segs)) (snd ((segs @ [s]) ! length segs))"
          by simp
        with True show False by (simp add: s)
      qed
    next
      assume "k = length segs"
      with True show "k < Suc (length segs) \<and> point_on_line_segment p (fst ((segs @ [s]) ! k)) (snd ((segs @ [s]) ! k))
     \<and> (\<forall>j. k < j \<and> j < Suc (length segs) \<longrightarrow>
            \<not> point_on_line_segment p (fst ((segs @ [s]) ! j)) (snd ((segs @ [s]) ! j)))"
        by (auto simp: s)
    qed
    moreover have "last_matching p (segs @ [s]) = Some (length segs)"
      using True by (simp add: s last_matching_snoc)
    moreover have len: "length (segs @ [s]) = Suc (length segs)"
      by simp
    ultimately show ?thesis
      unfolding len by auto
  next
    case False
    have "(\<forall>j. k < j \<and> j < Suc (length segs) \<longrightarrow>
            \<not> point_on_line_segment p (fst ((segs @ [s]) ! j)) (snd ((segs @ [s]) ! j)))
        \<longleftrightarrow> (\<forall>j. k < j \<and> j < length segs \<longrightarrow>
            \<not> point_on_line_segment p (fst (segs ! j)) (snd (segs ! j)))"
      using False by (auto simp: s nth_append less_Suc_eq)
    moreover have "k < Suc (length segs) \<and> point_on_line_segment p (fst ((segs @ [s]) ! k)) (snd ((segs @ [s]) ! k))
        \<longleftrightarrow> k < length segs \<and> point_on_line_segment p (fst (segs ! k)) (snd (segs ! k))"
      using False by (auto simp: s nth_append less_Suc_eq)
    moreover have lm: "last_matching p (segs @ [s]) = last_matching p segs"
      using False by (simp add: s last_matching_snoc)
    moreover have len: "length (segs @ [s]) = Suc (length segs)"
      by simp
    ultimately show ?thesis
      unfolding lm len using snoc.IH by blast
  qed
qed

lemma last_matching_None:
  "last_matching p segs = None \<longleftrightarrow>
     (\<forall>j < length segs. \<not> point_on_line_segment p (fst (segs ! j)) (snd (segs ! j)))"
proof (induction segs rule: rev_induct)
  case Nil
  show ?case by (simp add: last_matching_def)
next
  case (snoc s segs)
  obtain p1 p2 where s: "s = (p1, p2)" by (cases s)
  show ?case
    using snoc.IH by (auto simp: s last_matching_snoc nth_append less_Suc_eq)
qed

lemma fold_position_step:
  "fold (position_step p) segs
     \<lparr>total_length = 0, current_length = 0, target_segment = None, segment_start = 0\<rparr>
   = \<lparr>total_length = lengths_sum segs, current_length = lengths_sum segs,
      target_segment = (case last_matching p segs of None \<Rightarrow> None | Some k \<Rightarrow> Some (segs ! k)),
      segment_start = (case last_matching p segs of None \<Rightarrow> 0
                       | Some k \<Rightarrow> lengths_sum (take k segs))\<rparr>"
proof (induction segs rule: rev_induct)
  case Nil
  show ?case by (simp add: lengths_sum_def last_matching_def)
next
  case (snoc s segs)
  obtain p1 p2 where s: "s = (p1, p2)" by (cases s)
  have take: "last_matching p segs = Some k \<Longrightarrow> take k (segs @ [s]) = take k segs
      \<and> (segs @ [s]) ! k = segs ! k" for k
    by (simp add: last_matching_Some nth_append)
  let ?init = "\<lparr>total_length = 0, current_length = 0, target_segment = None,
                segment_start = 0\<rparr>"
  have "fold (position_step p) (segs @ [s]) ?init
          = position_step p s (fold (position_step p) segs ?init)"
    by simp
  also have "\<dots> = position_step p (p1, p2)
      \<lparr>total_length = lengths_sum segs, current_length = lengths_sum segs,
      target_segment = (case last_matching p segs of None \<Rightarrow> None | Some k \<Rightarrow> Some (segs ! k)),
      segment_start = (case last_matching p segs of None \<Rightarrow> 0
                       | Some k \<Rightarrow> lengths_sum (take k segs))\<rparr>"
    by (simp only: snoc.IH s)
  also have "\<dots> = \<lparr>total_length = lengths_sum (segs @ [s]), current_length = lengths_sum (segs @ [s]),
      target_segment = (case last_matching p (segs @ [s]) of None \<Rightarrow> None
                        | Some k \<Rightarrow> Some ((segs @ [s]) ! k)),
      segment_start = (case last_matching p (segs @ [s]) of None \<Rightarrow> 0
                       | Some k \<Rightarrow> lengths_sum (take k (segs @ [s])))\<rparr>"
    using take by (auto simp: s position_step_def Let_def lengths_sum_snoc
        last_matching_snoc split: option.splits)
  finally show ?case .
qed

lemma get_position_along_wire_eq:
  "get_position_along_wire p wire =
     (case last_matching p (segments wire) of
        None \<Rightarrow> Inr 0
      | Some k \<Rightarrow>
          if lengths_sum (segments wire) = 0 then Inl ZeroDivisionError
          else Inr (arc_position wire k p))"
  by (auto simp: get_position_along_wire_def fold_position_step arc_position_def Let_def
      split: option.splits prod.splits)

lemma distance_to_end:
  "point_to_line_distance b a b = Finite 0"
proof (cases "a = b")
  case True
  then show ?thesis
    by (cases b) (simp add: point_to_line_distance_def)
next
  case False
  obtain ax ay bx "by" where ab: "a = (ax, ay)" "b = (bx, by)"
    by (cases a, cases b) blast
  let ?D = "(by - ay)\<^sup>2 + (bx - ax)\<^sup>2"
  have pos: "0 < ?D"
    using False ab by (auto simp: sum_power2_gt_zero_iff)
  have num: "(bx - ax) * (bx - ax) + (by - ay) * (by - ay) = ?D"
    by (simp add: power2_eq_square)
  have sq: "(sqrt (real_of_int ?D))\<^sup>2 = real_of_int ?D"
    using pos by simp
  have ne: "\<not> (by = ay \<and> bx = ax)"
    using False ab by auto
  then have nz: "sqrt (real_of_int ?D) \<noteq> 0"
    by simp
  have one: "real_of_int ?D / real_of_int ?D = 1"
    using ne by simp
  show ?thesis
    using False nz
    unfolding ab point_to_line_distance_def prod.case Let_def num sq one
    by simp
qed

lemma distance_to_start:
  "point_to_line_distance a a b = Finite 0"
proof (cases "a = b")
  case True
  then show ?thesis
    by (cases b) (simp add: point_to_line_distance_def)
next
  case False
  obtain ax ay bx "by" where ab: "a = (ax, ay)" "b = (bx, by)"
    by (cases a, cases b) blast
  let ?D = "(by - ay)\<^sup>2 + (bx - ax)\<^sup>2"
  have pos: "0 < ?D"
    using False ab by (auto simp: sum_power2_gt_zero_iff)
  have ne: "\<not> (by = ay \<and> bx = ax)"
    using False ab by auto
  then have nz: "sqrt (real_of_int ?D) \<noteq> 0"
    by simp
  show ?thesis
    using False nz
    unfolding ab point_to_line_distance_def prod.case Let_def
    by simp
qed

lemma end_on_segment: "point_on_line_segment b a b"
  by (cases a, cases b) (simp add: point_on_line_segment_def distance_to_end grid_size_def)

lemma start_on_segment: "point_on_line_segment a a b"
  by (cases a, cases b) (simp add: point_on_line_segment_def distance_to_start grid_size_def)

lemma on_segment_within_length:
  assumes "point_on_line_segment p a b"
  shows "segment_length a p \<le> segment_length a b"
proof -
  obtain px py ax ay bx "by" where pab: "p = (px, py)" "a = (ax, ay)" "b = (bx, by)"
    by (cases p, cases a, cases b) blast
  from assms have box: "min ax bx \<le> px" "px \<le> max ax bx" "min ay by \<le> py" "py \<le> max ay by"
    by (auto simp: point_on_line_segment_def pab split: distance.splits if_splits)
  have "\<bar>px - ax\<bar> \<le> \<bar>bx - ax\<bar>" "\<bar>py - ay\<bar> \<le> \<bar>by - ay\<bar>"
    using box by linarith+
  then have "(px - ax)\<^sup>2 \<le> (bx - ax)\<^sup>2" "(py - ay)\<^sup>2 \<le> (by - ay)\<^sup>2"
    by (simp_all add: abs_le_square_iff)
  then have "(px - ax)\<^sup>2 + (py - ay)\<^sup>2 \<le> (bx - ax)\<^sup>2 + (by - ay)\<^sup>2"
    by linarith
  then show ?thesis
    by (simp only: segment_length_def pab fst_conv snd_conv real_sqrt_le_iff of_int_le_iff)
qed

lemma lengths_sum_nonneg: "0 \<le> lengths_sum segs"
  by (induction segs) (auto simp: lengths_sum_def segment_length_def)

lemma lengths_sum_append: "lengths_sum (xs @ ys) = lengths_sum xs + lengths_sum ys"
  by (simp add: lengths_sum_def)

lemma lengths_sum_take_le: "lengths_sum (take k segs) \<le> lengths_sum segs"
proof -
  have "lengths_sum segs = lengths_sum (take k segs) + lengths_sum (drop k segs)"
    using lengths_sum_append [of "take k segs" "drop k segs"] by simp
  then show ?thesis
    using lengths_sum_nonneg [of "drop k segs"] by simp
qed

lemma lengths_sum_take_mono:
  assumes "i \<le> j"
  shows "lengths_sum (take i segs) \<le> lengths_sum (take j segs)"
proof -
  have "take i segs = take i (take j segs)"
    using assms by (simp add: min_def)
  then show ?thesis
    using lengths_sum_take_le [of i "take j segs"] by simp
qed

lemma lengths_sum_take_Suc:
  assumes "i < length segs"
  shows "lengths_sum (take (Suc i) segs)
         = lengths_sum (take i segs) + segment_length (fst (segs ! i)) (snd (segs ! i))"
  using assms by (simp add: take_Suc_conv_app_nth lengths_sum_append)
    (simp add: lengths_sum_def case_prod_beta)

lemma segment_length_same: "segment_length a a = 0"
  by (simp add: segment_length_def)

lemma position_at_last_point:
  assumes "lengths_sum (segments wire) \<noteq> 0"
  shows "get_position_along_wire (last (points wire)) wire = Inr 1"
proof -
  let ?ps = "points wire" and ?segs = "segments wire"
  have ne: "?segs \<noteq> []"
    using assms by (auto simp: lengths_sum_def)
  then obtain m where m: "length ?segs = Suc m"
    by (cases ?segs) auto
  then have len: "length ?ps = Suc (Suc m)"
    by (simp add: segments_def)
  have seg: "?segs ! m = (?ps ! m, ?ps ! Suc m)"
    using len by (simp add: segments_def nth_tl)
  have "?ps \<noteq> []"
    using len by auto
  then have last: "last ?ps = ?ps ! Suc m"
    by (simp add: last_conv_nth len)
  have on: "point_on_line_segment (last ?ps) (fst (?segs ! m)) (snd (?segs ! m))"
    by (simp add: seg last end_on_segment)
  have lm: "last_matching (last ?ps) ?segs = Some m"
    unfolding last_matching_Some using on m by auto
  have "lengths_sum ?segs = lengths_sum (take (Suc m) ?segs)"
    using m by simp
  also have "\<dots> = lengths_sum (take m ?segs) + segment_length (fst (?segs ! m)) (snd (?segs ! m))"
    using m by (intro lengths_sum_take_Suc) simp
  finally have "arc_position wire m (last ?ps) = 1"
    using assms by (simp add: arc_position_def seg last)
  then show ?thesis
    using assms by (simp add: get_position_along_wire_eq lm)
qed

lemma position_at_first_point:
  assumes "lengths_sum (segments wire) \<noteq> 0"
    and "\<forall>j. 0 < j \<and> j < length (segments wire) \<longrightarrow>
           \<not> point_on_line_segment (hd (points wire))
               (fst (segments wire ! j)) (snd (segments wire ! j))"
  shows "get_position_along_wire (hd (points wire)) wire = Inr 0"
proof -
  let ?ps = "points wire" and ?segs = "segments wire"
  have ne: "?segs \<noteq> []"
    using assms(1) by (auto simp: lengths_sum_def)
  then obtain p1 p2 rest where ps: "?ps = p1 # p2 # rest"
    by (cases ?ps; cases "tl ?ps") (auto simp: segments_def)
  have seg: "?segs ! 0 = (hd ?ps, p2)"
    by (simp add: segments_def ps)
  have on: "point_on_line_segment (hd ?ps) (fst (?segs ! 0)) (snd (?segs ! 0))"
    by (simp add: seg start_on_segment)
  have lm: "last_matching (hd ?ps) ?segs = Some 0"
    unfolding last_matching_Some using on ne assms(2) by auto
  have "arc_position wire 0 (hd ?ps) = 0"
    by (simp add: arc_position_def seg segment_length_same lengths_sum_def)
  then show ?thesis
    using assms(1) by (simp add: get_position_along_wire_eq lm)
qed

lemma position_monotone:
  assumes L: "lengths_sum (segments wire) \<noteq> 0"
    and p: "last_matching p (segments wire) = Some i"
    and q: "last_matching q (segments wire) = Some j"
    and le: "i < j \<or> (i = j \<and> segment_length (fst (segments wire ! i)) p
                              \<le> segment_length (fst (segments wire ! i)) q)"
  shows "\<exists>a b. get_position_along_wire p wire = Inr a \<and> get_position_along_wire q wire = Inr b
           \<and> a \<le> b"
proof -
  let ?segs = "segments wire"
  let ?L = "lengths_sum ?segs"
  have pos: "0 < ?L"
    using L lengths_sum_nonneg [of ?segs] by simp
  have gp: "get_position_along_wire p wire = Inr (arc_position wire i p)"
    and gq: "get_position_along_wire q wire = Inr (arc_position wire j q)"
    using L p q by (simp_all add: get_position_along_wire_eq)
  have num: "lengths_sum (take i ?segs) + segment_length (fst (?segs ! i)) p
             \<le> lengths_sum (take j ?segs) + segment_length (fst (?segs ! j)) q"
  proof (cases "i < j")
    case True
    have i: "i < length ?segs"
      and on: "point_on_line_segment p (fst (?segs ! i)) (snd (?segs ! i))"
      using p by (simp_all add: last_matching_Some)
    have "segment_length (fst (?segs ! i)) p \<le> segment_length (fst (?segs ! i)) (snd (?segs ! i))"
      using on by (rule on_segment_within_length)
    then have "lengths_sum (take i ?segs) + segment_length (fst (?segs ! i)) p
               \<le> lengths_sum (take (Suc i) ?segs)"
      using lengths_sum_take_Suc [OF i] by simp
    also have "\<dots> \<le> lengths_sum (take j ?segs)"
      using True by (intro lengths_sum_take_mono) simp
    also have "\<dots> \<le> lengths_sum (take j ?segs) + segment_length (fst (?segs ! j)) q"
      by (simp add: segment_length_def)
    finally show ?thesis .
  next
    case False
    with le show ?thesis by auto
  qed
  have "arc_position wire i p \<le> arc_position wire j q"
    unfolding arc_position_def using num pos by (simp add: divide_right_mono)
  with gp gq show ?thesis by simp
qed

lemma sqrt_57600: "sqrt 57600 = 240"
  by (rule real_sqrt_unique) simp_all

lemma sqrt_67600: "sqrt 67600 = 260"
  by (rule real_sqrt_unique) simp_all

lemma sqrt_400: "sqrt 400 = 20"
  by (rule real_sqrt_unique) simp_all

lemma d1: "point_to_line_distance (220, 0) (240, 0) (0, 100) = Finite (100 / 13)"
proof -
  have "sqrt (10000 / 169) = 100 / 13"
    by (rule real_sqrt_unique) (simp_all add: power2_eq_square)
  then show ?thesis
    by (simp add: point_to_line_distance_def Let_def sqrt_67600 power2_eq_square)
qed

lemma on1: "point_on_line_segment (220, 0) (240, 0) (0, 100)"
  by (simp add: point_on_line_segment_def d1 grid_size_def)

lemma upt_2: "[0 ..< 2] = [0, Suc 0]"
  by (simp add: upt_rec)

text \<open>
  C6, as stated, fails. On the wire (220,0), (240,0), (0,100), of length 280, the first point
  also lies on the second segment (distance 100/13 from it, inside its bounding box), and
  its position is 1/7, not 0. On the wire (0,0), (240,0), (0,100) the point (220,0) of the
  first segment gets position 13/25, and the later point (240,0) gets 12/25.
\<close>

theorem position_along_wire_counterexample:
  "get_position_along_wire (220, 0) short_bent_wire = Inr (1 / 7)
   \<and> get_position_along_wire (220, 0) bent_wire = Inr (13 / 25)
   \<and> get_position_along_wire (240, 0) bent_wire = Inr (12 / 25)"
proof -
  have lm1: "last_matching (220, 0) (segments short_bent_wire) = Some (Suc 0)"
    by (simp add: last_matching_def segments_def short_bent_wire_def upt_2 on1)
  have lm2: "last_matching (220, 0) (segments bent_wire) = Some (Suc 0)"
    by (simp add: last_matching_def segments_def bent_wire_def upt_2 on1)
  have lm3: "last_matching (240, 0) (segments bent_wire) = Some (Suc 0)"
    by (simp add: last_matching_def segments_def bent_wire_def upt_2 start_on_segment)
  have L1: "lengths_sum (segments short_bent_wire) = 280"
    and L2: "lengths_sum (segments bent_wire) = 500"
    by (simp_all add: lengths_sum_def segment_length_def segments_def short_bent_wire_def
        bent_wire_def sqrt_400 sqrt_57600 sqrt_67600)
  have a1: "arc_position short_bent_wire (Suc 0) (220, 0) = 1 / 7"
    and a2: "arc_position bent_wire (Suc 0) (220, 0) = 13 / 25"
    and a3: "arc_position bent_wire (Suc 0) (240, 0) = 12 / 25"
    by (simp_all add: arc_position_def lengths_sum_def segment_length_def segments_def
        short_bent_wire_def bent_wire_def sqrt_400 sqrt_57600 sqrt_67600)
  show ?thesis
    by (simp add: get_position_along_wire_eq lm1 lm2 lm3 L1 L2 a1 a2 a3)
qed

text \<open>
  C6, amended. On a wire of nonzero length the position of a point is computed from the last
  segment, in point order, that the point is on (\<open>arc_position\<close> on that segment), and is 0
  for a point on no segment. So the last point of the wire has position exactly 1; the first
  point has position exactly 0 when it is on no segment after the first; and the position is
  non-decreasing in the index of that last segment and, for one segment, in the distance
  from the segment's start.
\<close>

theorem position_along_wire:
  assumes "lengths_sum (segments wire) \<noteq> 0"
  shows "get_position_along_wire (last (points wire)) wire = Inr 1
   \<and> ((\<forall>j. 0 < j \<and> j < length (segments wire) \<longrightarrow>
           \<not> point_on_line_segment (hd (points wire))
               (fst (segments wire ! j)) (snd (segments wire ! j)))
        \<longrightarrow> get_position_along_wire (hd (points wire)) wire = Inr 0)
   \<and> (\<forall>k. last_matching p (segments wire) = Some k \<longrightarrow>
           get_position_along_wire p wire = Inr (arc_position wire k p))
   \<and> (last_matching p (segments wire) = None \<longrightarrow> get_position_along_wire p wire = Inr 0)
   \<and> (\<forall>i j. last_matching p (segments wire) = Some i
             \<and> last_matching q (segments wire) = Some j
             \<and> (i < j \<or> (i = j \<and> segment_length (fst (segments wire ! i)) p
                                    \<le> segment_length (fst (segments wire ! i)) q))
         \<longrightarrow> (\<exists>a b. get_position_along_wire p wire = Inr a
                   \<and> get_position_along_wire q wire = Inr b \<and> a \<le> b))"
proof (intro conjI allI impI)
  show "get_position_along_wire (last (points wire)) wire = Inr 1"
    using assms by (rule position_at_last_point)
next
  assume "\<forall>j. 0 < j \<and> j < length (segments wire) \<longrightarrow>
           \<not> point_on_line_segment (hd (points wire))
               (fst (segments wire ! j)) (snd (segments wire ! j))"
  with assms show "get_position_along_wire (hd (points wire)) wire = Inr 0"
    by (rule position_at_first_point)
next
  fix k assume "last_matching p (segments wire) = Some k"
  with assms show "get_position_along_wire p wire = Inr (arc_position wire k p)"
    by (simp add: get_position_along_wire_eq)
next
  assume "last_matching p (segments wire) = None"
  then show "get_position_along_wire p wire = Inr 0"
    by (simp add: get_position_along_wire_eq)
next
  fix i j
  assume "last_matching p (segments wire) = Some i
             \<and> last_matching q (segments wire) = Some j
             \<and> (i < j \<or> (i = j \<and> segment_length (fst (segments wire ! i)) p
                                    \<le> segment_length (fst (segments wire ! i)) q))"
  then show "\<exists>a b. get_position_along_wire p wire = Inr a
                   \<and> get_position_along_wire q wire = Inr b \<and> a \<le> b"
    using position_monotone [OF assms, of p i q j] by blast
qed

theorem position_along_wire_witness:
  "lengths_sum (segments straight_wire) \<noteq> 0
   \<and> get_position_along_wire (40, 0) straight_wire = Inr 1
   \<and> get_position_along_wire (0, 0) straight_wire = Inr 0
   \<and> last_matching (0, 0) (segments straight_wire) = Some 0
   \<and> last_matching (40, 0) (segments straight_wire) = Some 1
   \<and> (\<exists>a b. get_position_along_wire (0, 0) straight_wire = Inr a
          \<and> get_position_along_wire (40, 0) straight_wire = Inr b \<and> a \<le> b)"
proof -
  have L: "lengths_sum (segments straight_wire) \<noteq> 0"
    by (simp add: lengths_sum_def segments_def straight_wire_def segment_length_def sqrt_400)
  have off: "\<not> point_on_line_segment (0, 0) (20, 0) (40, 0)"
    by (simp add: point_on_line_segment_def point_to_line_distance_def Let_def sqrt_400
        grid_size_def)
  have first: "\<forall>j. 0 < j \<and> j < length (segments straight_wire) \<longrightarrow>
           \<not> point_on_line_segment (hd (points straight_wire))
               (fst (segments straight_wire ! j)) (snd (segments straight_wire ! j))"
    using off by (auto simp: segments_def straight_wire_def less_Suc_eq)
  have lm0: "last_matching (0, 0) (segments straight_wire) = Some 0"
    using off by (simp add: last_matching_def segments_def straight_wire_def upt_2
        start_on_segment)
  have lm1: "last_matching (40, 0) (segments straight_wire) = Some 1"
    by (simp add: last_matching_def segments_def straight_wire_def upt_2 end_on_segment)
  from position_along_wire [OF L, of "(0, 0)" "(40, 0)"] first lm0 lm1
  show ?thesis
    using L by (simp add: straight_wire_def)
qed

section \<open>Measurement attachment\<close>

lemma emit_Nil [simp]: "emit [] self = self"
  by (cases "circuit self") (simp_all add: emit_def)

lemma emit_emit [simp]: "emit ys (emit xs self) = emit (xs @ ys) self"
  by (cases "circuit self") (simp_all add: emit_def)

lemma emit_fields [simp]:
  "wires (emit xs self) = wires self" "gates (emit xs self) = gates self"
  "sensors (emit xs self) = sensors self" "sensor_data (emit xs self) = sensor_data self"
  "circuit_info (emit xs self) = circuit_info self" "sensor_text (emit xs self) = sensor_text self"
  by (simp_all add: emit_def)

lemma registers_cover_emit [simp]: "registers_cover n (emit xs self) = registers_cover n self"
  by (cases "circuit self") (simp_all add: emit_def registers_cover_def)

lemma measure_segments_result:
  assumes "registers_cover (Suc wire_idx) self"
  shows "measure_segments sensor_pos wire_idx segs (self, m)
         = Inr (if list_ex (\<lambda>(p1, p2). point_on_line_segment sensor_pos p1 p2) segs
                then (emit [Measure wire_idx wire_idx] self, True) else (self, m))"
proof (induction segs)
  case Nil
  show ?case by simp
next
  case (Cons seg segs)
  obtain p1 p2 where seg: "seg = (p1, p2)" by (cases seg)
  from assms obtain qc where qc: "circuit self = Some qc"
    "wire_idx < num_qubits qc" "wire_idx < num_clbits qc"
    by (auto simp: registers_cover_def split: option.splits)
  show ?case
    using Cons.IH qc
    by (simp add: seg circuit_measure_def append_instruction_def emit_def)
qed

lemma measure_wires_result:
  assumes "\<forall>(i, w) \<in> set iws. registers_cover (Suc i) self"
  shows "measure_wires sensor_pos iws (self, m)
         = Inr (emit (wire_measurements iws sensor_pos) self,
                m \<or> wire_measurements iws sensor_pos \<noteq> [])"
  using assms
proof (induction iws arbitrary: self m)
  case Nil
  show ?case by (simp add: wire_measurements_def)
next
  case (Cons iw iws)
  obtain i w where iw: "iw = (i, w)" by (cases iw)
  have cover: "registers_cover (Suc i) self"
    and rest: "\<forall>(j, w) \<in> set iws. registers_cover (Suc j) self"
    using Cons.prems by (auto simp: iw)
  show ?case
  proof (cases "on_wire sensor_pos w")
    case True
    have "\<forall>(j, w) \<in> set iws. registers_cover (Suc j) (emit [Measure i i] self)"
      using rest by simp
    from Cons.IH [OF this, of True] True show ?thesis
      by (simp add: iw measure_segments_result [OF cover] on_wire_def wire_measurements_def)
  next
    case False
    from Cons.IH [OF rest, of m] False show ?thesis
      by (simp add: iw measure_segments_result [OF cover] on_wire_def wire_measurements_def)
  qed
qed

lemma measure_sensors_result:
  assumes "\<forall>(i, w) \<in> set iws. registers_cover (Suc i) self"
  shows "measure_sensors sensor_list iws (self, m)
         = Inr (emit (concat (map (wire_measurements iws) sensor_list)) self,
                m \<or> concat (map (wire_measurements iws) sensor_list) \<noteq> [])"
  using assms
proof (induction sensor_list arbitrary: self m)
  case Nil
  show ?case by simp
next
  case (Cons s sensor_list)
  have "\<forall>(i, w) \<in> set iws. registers_cover (Suc i) (emit (wire_measurements iws s) self)"
    using Cons.prems by simp
  from Cons.IH [OF this] show ?case
    by (simp add: measure_wires_result [OF Cons.prems])
qed

lemma cover_enumerate:
  assumes "registers_cover (length ws) self"
  shows "\<forall>(i, w) \<in> set (enumerate 0 ws). registers_cover (Suc i) self"
  using assms by (auto simp: registers_cover_def in_set_enumerate_eq split: option.splits)

lemma wire_measurements_eq:
  "wire_measurements (enumerate k ws) s
   = map (\<lambda>i. Measure i i) (filter (\<lambda>i. on_wire s (ws ! (i - k))) [k ..< k + length ws])"
proof (induction ws arbitrary: k)
  case Nil
  show ?case by (simp add: wire_measurements_def)
next
  case (Cons w ws)
  define rest where "rest = [Suc k ..< Suc k + length ws]"
  have upt: "[k ..< k + length (w # ws)] = k # rest"
    unfolding rest_def using upt_conv_Cons [of k "k + length (w # ws)"]
    by (simp del: upt_Suc)
  have shift: "filter (\<lambda>i. on_wire s ((w # ws) ! (i - k))) rest
               = filter (\<lambda>i. on_wire s (ws ! (i - Suc k))) rest"
    unfolding rest_def by (rule filter_cong) (auto simp: nth_Cons')
  have "wire_measurements (enumerate k (w # ws)) s
        = (if on_wire s w then [Measure k k] else []) @ wire_measurements (enumerate (Suc k) ws) s"
    by (simp add: wire_measurements_def)
  also have "\<dots> = (if on_wire s w then [Measure k k] else [])
        @ map (\<lambda>i. Measure i i) (filter (\<lambda>i. on_wire s (ws ! (i - Suc k))) rest)"
    unfolding rest_def by (simp only: Cons.IH)
  also have "\<dots> = map (\<lambda>i. Measure i i)
        (filter (\<lambda>i. on_wire s ((w # ws) ! (i - k))) (k # rest))"
    by (simp add: shift)
  finally show ?case
    unfolding upt .
qed

lemma wire_measurements_fun:
  "wire_measurements (enumerate 0 ws)
   = (\<lambda>s. map (\<lambda>i. Measure i i) (filter (\<lambda>i. on_wire s (ws ! i)) [0 ..< length ws]))"
  by (rule ext) (simp add: wire_measurements_eq)

lemma sensor_measurements_eq:
  "sensor_measurements ws ss
   = concat (map (\<lambda>s. map (\<lambda>i. Measure i i) (filter (\<lambda>i. on_wire s (ws ! i)) [0 ..< length ws])) ss)"
  by (simp only: sensor_measurements_def wire_measurements_fun)

lemma sensor_measurements_set:
  "set (sensor_measurements ws ss)
   = {Measure i i | i. i < length ws \<and> (\<exists>s \<in> set ss. on_wire s (ws ! i))}"
  by (auto simp: sensor_measurements_eq)

lemma sensor_measurements_empty:
  "sensor_measurements ws ss = [] \<longleftrightarrow> \<not> (\<exists>s \<in> set ss. \<exists>w \<in> set ws. on_wire s w)"
proof -
  have "sensor_measurements ws ss = [] \<longleftrightarrow> set (sensor_measurements ws ss) = {}"
    by simp
  also have "\<dots> \<longleftrightarrow> \<not> (\<exists>s \<in> set ss. \<exists>i < length ws. on_wire s (ws ! i))"
    unfolding sensor_measurements_set by auto
  also have "\<dots> \<longleftrightarrow> \<not> (\<exists>s \<in> set ss. \<exists>w \<in> set ws. on_wire s w)"
  proof -
    have "(\<exists>i < length ws. on_wire s (ws ! i)) \<longleftrightarrow> (\<exists>w \<in> set ws. on_wire s w)" for s
      by (metis in_set_conv_nth)
    then show ?thesis by simp
  qed
  finally show ?thesis .
qed

lemma mid_on_horizontal: "point_on_line_segment (20, 0) (0, 0) (40, 0)"
  by (simp add: point_on_line_segment_def point_to_line_distance_def Let_def grid_size_def)

lemma mid_on_vertical: "point_on_line_segment (20, 0) (20, -20) (20, 20)"
  by (simp add: point_on_line_segment_def point_to_line_distance_def Let_def grid_size_def)

lemma off_parallel: "\<not> point_on_line_segment (20, 0) (0, 40) (40, 40)"
  by (simp add: point_on_line_segment_def point_to_line_distance_def Let_def grid_size_def)

lemma between_parallel:
  "\<not> point_on_line_segment (20, 20) (0, 0) (40, 0)"
  "\<not> point_on_line_segment (20, 20) (0, 40) (40, 40)"
  by (simp_all add: point_on_line_segment_def point_to_line_distance_def Let_def grid_size_def)

text \<open>
  C1, as stated, fails: a sensor on the crossing of two wires is not bound to the first wire
  only. The \<^verbatim>\<open>break\<close> leaves the loop over the segments of one wire, the loop over the
  wires goes on, and both wires are measured.
\<close>

theorem sensor_first_match_counterexample:
  "measure_sensors (sensors crossing_state) (enumerate 0 (wires crossing_state))
     (crossing_state, False)
   = Inr (crossing_state\<lparr>circuit := Some \<lparr>num_qubits = 2, num_clbits = 2,
            data = [Reset 0, Reset 1, Measure 0 0, Measure 1 1]\<rparr>\<rparr>, True)"
proof -
  have cover: "\<forall>(i, w) \<in> set (enumerate 0 (wires crossing_state)).
                 registers_cover (Suc i) crossing_state"
    by (rule cover_enumerate) (simp add: registers_cover_def crossing_state_def)
  have "concat (map (wire_measurements (enumerate 0 (wires crossing_state)))
          (sensors crossing_state)) = [Measure 0 0, Measure 1 1]"
    by (simp add: wire_measurements_def crossing_state_def on_wire_def segments_def
        mid_on_horizontal mid_on_vertical)
  then show ?thesis
    by (simp add: measure_sensors_result [OF cover]) (simp add: emit_def crossing_state_def)
qed

text \<open>
  C1, amended. With registers as wide as the wire collection, the measurement attachment
  raises nothing and appends, sensor after sensor, for every wire in collection order that
  the sensor is on (on some segment), exactly one measurement of that wire's qubit into the
  classical bit of the same index: the scan of a wire stops at its first matching segment,
  the scan of the wires goes on. The flag tells whether a measurement was added.
\<close>

theorem sensor_measurement_attachment:
  assumes "registers_cover (length (wires self)) self"
  shows "measure_sensors (sensors self) (enumerate 0 (wires self)) (self, False)
         = Inr (emit (sensor_measurements (wires self) (sensors self)) self,
                sensor_measurements (wires self) (sensors self) \<noteq> [])
   \<and> sensor_measurements (wires self) (sensors self)
       = concat (map (\<lambda>s. map (\<lambda>i. Measure i i)
                              (filter (\<lambda>i. on_wire s (wires self ! i)) [0 ..< length (wires self)]))
                   (sensors self))"
  using measure_sensors_result [OF cover_enumerate [OF assms], of "sensors self" False]
  by (simp add: sensor_measurements_eq [symmetric]) (simp add: sensor_measurements_def)

theorem sensor_measurement_attachment_witness:
  "registers_cover (length (wires crossing_state)) crossing_state
   \<and> measure_sensors (sensors crossing_state) (enumerate 0 (wires crossing_state))
       (crossing_state, False)
     = Inr (emit [Measure 0 0, Measure 1 1] crossing_state, True)
   \<and> sensor_measurements (wires crossing_state) (sensors crossing_state)
     = [Measure 0 0, Measure 1 1]"
proof -
  have cover: "registers_cover (length (wires crossing_state)) crossing_state"
    by (simp add: registers_cover_def crossing_state_def)
  have on: "on_wire (20, 0) (wires crossing_state ! 0)" "on_wire (20, 0) (wires crossing_state ! 1)"
    by (simp_all add: crossing_state_def on_wire_def segments_def mid_on_horizontal
        mid_on_vertical)
  have two: "[0 ..< length (wires crossing_state)] = [0, 1]"
    by (simp add: crossing_state_def upt_rec)
  have sens: "sensors crossing_state = [(20, 0)]"
    by (simp add: crossing_state_def)
  from sensor_measurement_attachment [OF cover] show ?thesis
    using cover on by (simp add: two sens)
qed

section \<open>Gate phase: collection, order and blocks\<close>

lemma collect_segments_result:
  "collect_segments gate wire segs wg =
     (if list_ex (\<lambda>(p1, p2). point_on_line_segment (pos gate) p1 p2) segs
      then (case get_position_along_wire (pos gate) wire of
              Inl e \<Rightarrow> Inl e
            | Inr a \<Rightarrow>
                Inr (wg @ replicate
                       (length (filter (\<lambda>(p1, p2). point_on_line_segment (pos gate) p1 p2) segs))
                       (gate, a)))
      else Inr wg)"
proof (induction segs arbitrary: wg)
  case Nil
  show ?case by simp
next
  case (Cons seg segs)
  obtain p1 p2 where seg: "seg = (p1, p2)" by (cases seg)
  show ?case
    by (cases "get_position_along_wire (pos gate) wire")
      (auto simp: seg Cons.IH replicate_app_Cons_same list_ex_iff filter_empty_conv)
qed

lemma position_returns:
  assumes "lengths_sum (segments wire) \<noteq> 0"
  shows "get_position_along_wire p wire = Inr (position_of wire p)"
  using assms
  by (simp add: position_of_def get_position_along_wire_eq split: option.splits)

lemma collect_gates_result:
  assumes "lengths_sum (segments wire) \<noteq> 0"
  shows "collect_gates gs wire wg = Inr (wg @ wire_gate_list gs wire)"
proof (induction gs arbitrary: wg)
  case Nil
  show ?case by (simp add: wire_gate_list_def)
next
  case (Cons g gs)
  have "collect_segments g wire (segments wire) wg
        = Inr (wg @ replicate (matching_segments (pos g) wire) (g, position_of wire (pos g)))"
    by (auto simp: collect_segments_result position_returns [OF assms] matching_segments_def
        list_ex_iff filter_empty_conv)
  then show ?case
    by (simp add: Cons.IH wire_gate_list_def)
qed

lemma ready_emit [simp]: "ready self \<Longrightarrow> ready (emit xs self)"
  by (cases "circuit self") (simp_all add: ready_def emit_def)

lemma add_gate_emit:
  assumes "ready self" and "wire_idx < length (wires self)"
  shows "add_gate_to_circuit gate_type wire_idx self
         = emit (gate_operation (length (wires self)) gate_type wire_idx) self"
proof -
  from assms(1) obtain qc where qc: "circuit self = Some qc" "data qc \<noteq> []"
    "length (wires self) \<le> num_qubits qc"
    by (auto simp: ready_def split: option.splits)
  have same: "self\<lparr>circuit := Some qc\<rparr> = self"
    using qc(1) by (cases self) simp
  have int: "int wire_idx < int (length (wires self)) - 1 \<longleftrightarrow> Suc wire_idx < length (wires self)"
    by linarith
  show ?thesis
    using qc assms(2) same
    by (auto simp: add_gate_to_circuit_def circuit_falsy_def gate_operation_def emit_def int
        circuit_h_def circuit_x_def circuit_y_def circuit_z_def circuit_cx_def
        append_instruction_def)
qed

lemma fold_add_gate_emit:
  assumes "ready self" and "wire_idx < length (wires self)"
  shows "fold (\<lambda>ga. add_gate_to_circuit (type (fst ga)) wire_idx) gas self
         = emit (concat (map (\<lambda>ga. gate_operation (length (wires self)) (type (fst ga)) wire_idx)
                           gas)) self"
  using assms
proof (induction gas arbitrary: self)
  case Nil
  show ?case by simp
next
  case (Cons ga gas)
  let ?self1 = "emit (gate_operation (length (wires self)) (type (fst ga)) wire_idx) self"
  have "ready ?self1" "wire_idx < length (wires ?self1)"
    using Cons.prems by simp_all
  from Cons.IH [OF this] show ?case
    by (simp add: add_gate_emit [OF Cons.prems])
qed

lemma wire_block_emit [simp]: "wire_block (emit xs self) i = wire_block self i"
  by (simp add: wire_block_def)

lemma process_wire_result:
  assumes cover: "registers_cover (length (wires self)) self"
    and idx: "wire_idx < length (wires self)"
    and len: "lengths_sum (segments (wires self ! wire_idx)) \<noteq> 0"
  shows "process_wire wire_idx (self, processed)
         = Inr (emit (wire_block self wire_idx) self, insert wire_idx processed)"
proof -
  from cover obtain qc where qc: "circuit self = Some qc" "length (wires self) \<le> num_qubits qc"
    by (auto simp: registers_cover_def split: option.splits)
  let ?self1 = "self\<lparr>circuit := Some (qc\<lparr>data := data qc @ [Reset wire_idx]\<rparr>)\<rparr>"
  have self1: "?self1 = emit [Reset wire_idx] self"
    by (simp add: emit_def qc(1))
  have rdy: "ready ?self1"
    using qc by (simp add: ready_def)
  have reset: "circuit_reset wire_idx qc = Inr (qc\<lparr>data := data qc @ [Reset wire_idx]\<rparr>)"
    using qc(2) idx by (simp add: circuit_reset_def append_instruction_def)
  have idx1: "wire_idx < length (wires ?self1)"
    using idx by simp
  show ?thesis
    unfolding process_wire_def prod.case qc(1) option.case reset sum.case Let_def
    using idx fold_add_gate_emit [OF rdy idx1]
    by (simp add: collect_gates_result [OF len] self1 wire_block_def)
qed

lemma process_group_result:
  assumes "registers_cover (length (wires self)) self"
    and "\<forall>i \<in> set idxs. i < length (wires self)"
    and "\<forall>w \<in> set (wires self). lengths_sum (segments w) \<noteq> 0"
  shows "process_group idxs (self, processed)
         = Inr (emit (concat (map (wire_block self) idxs)) self, processed \<union> set idxs)"
  using assms
proof (induction idxs arbitrary: self processed)
  case Nil
  show ?case by simp
next
  case (Cons i idxs)
  have i: "i < length (wires self)" and rest: "\<forall>j \<in> set idxs. j < length (wires self)"
    using Cons.prems(2) by simp_all
  have len: "lengths_sum (segments (wires self ! i)) \<noteq> 0"
    using Cons.prems(3) i by simp
  let ?self1 = "emit (wire_block self i) self"
  have "registers_cover (length (wires ?self1)) ?self1"
    "\<forall>j \<in> set idxs. j < length (wires ?self1)"
    "\<forall>w \<in> set (wires ?self1). lengths_sum (segments w) \<noteq> 0"
    using Cons.prems rest by simp_all
  from Cons.IH [OF this, of "insert i processed"] show ?case
    by (simp add: process_wire_result [OF Cons.prems(1) i len])
qed

lemma connected_group_range:
  assumes ok: "graph_ok iter conns" and a: "a < length conns"
  shows "\<exists>group. get_connected_wires iter a conns = Inr group \<and> a \<in> group
           \<and> group \<subseteq> {..< length conns} \<and> group = (wire_edges conns)\<^sup>* `` {a}"
proof -
  have inv: "search_inv conns (fst ({a}, [a])) (snd ({a}, [a])) []"
    by (simp add: search_inv_def)
  have rng: "fst ({a}, [a]) \<subseteq> {..< length conns}" and inR: "fst ({a}, [a]) \<subseteq> UNIV"
    using a by simp_all
  from search_result [OF ok inv rng inR] obtain group vis where g:
    "search iter conns ({a}, [a]) [] = Inr (group, vis)" "a \<in> group"
    "group \<subseteq> {..< length conns}"
    by auto
  from search_from_start [OF ok a] g(1) have "group = (wire_edges conns)\<^sup>* `` {a}"
    by auto
  with g show ?thesis
    by (simp add: get_connected_wires_def)
qed

lemma process_wires_result:
  assumes ok: "graph_ok iter conns" and n: "length conns = length (wires self)"
    and iter: "\<forall>S. S \<subseteq> {..< length conns} \<longrightarrow> set (iter S) = S"
    and wf: "\<forall>w \<in> set (wires self). lengths_sum (segments w) \<noteq> 0"
    and cover: "registers_cover (length (wires self)) self"
    and idxs: "\<forall>i \<in> set idxs. i < length (wires self)"
  shows "process_wires iter conns idxs (self, processed)
         = Inr (emit (concat (map (wire_block self) (group_order iter conns idxs processed))) self,
                processed \<union> set (group_order iter conns idxs processed))
         \<and> set idxs \<subseteq> processed \<union> set (group_order iter conns idxs processed)
         \<and> set (group_order iter conns idxs processed) \<subseteq> {..< length (wires self)}"
  using n wf cover idxs
proof (induction idxs arbitrary: self processed)
  case Nil
  show ?case by simp
next
  case (Cons i idxs)
  have i: "i < length conns" and rest: "\<forall>j \<in> set idxs. j < length (wires self)"
    using Cons.prems by simp_all
  show ?case
  proof (cases "i \<in> processed")
    case True
    with Cons.IH [OF Cons.prems(1,2,3) rest, of processed] show ?thesis
      by auto
  next
    case False
    from connected_group_range [OF ok i] obtain group where g:
      "get_connected_wires iter i conns = Inr group" "i \<in> group"
      "group \<subseteq> {..< length conns}"
      by blast
    from iter g(3) have set: "set (iter group) = group" by blast
    have grp: "\<forall>j \<in> set (iter group). j < length (wires self)"
      using g(3) set Cons.prems(1) by auto
    let ?self1 = "emit (concat (map (wire_block self) (iter group))) self"
    have run: "process_group (iter group) (self, processed)
               = Inr (?self1, processed \<union> set (iter group))"
      using Cons.prems(3) grp Cons.prems(2) by (rule process_group_result)
    have p: "length conns = length (wires ?self1)"
      "\<forall>w \<in> set (wires ?self1). lengths_sum (segments w) \<noteq> 0"
      "registers_cover (length (wires ?self1)) ?self1"
      "\<forall>j \<in> set idxs. j < length (wires ?self1)"
      using Cons.prems rest by simp_all
    from Cons.IH [OF p, of "processed \<union> set (iter group)"] False g(1,2) run set grp
    show ?thesis
      by (auto simp: wire_block_emit [abs_def])
  qed
qed

lemma nonzero_length_points:
  assumes "lengths_sum (segments w) \<noteq> 0"
  shows "points w \<noteq> []"
  using assms by (auto simp: lengths_sum_def segments_def)

lemma find_wire_connections_graph_ok:
  assumes conns: "find_wire_connections self = Inr conns"
    and wf: "\<forall>w \<in> set (wires self). points w \<noteq> []"
    and iter: "\<forall>S. S \<subseteq> {..< length (wires self)} \<longrightarrow> set (iter S) = S"
  shows "length conns = length (wires self) \<and> graph_ok iter conns"
proof -
  let ?n = "length (wires self)"
  from find_wire_connections_result [OF wf] conns have len: "length conns = ?n"
    and char: "\<forall>i < ?n. conns ! i = {j. j < ?n \<and> i \<noteq> j
        \<and> endpoints_coincide (wires self ! i) (wires self ! j)}"
    by auto
  have "set (iter (conns ! i)) = conns ! i \<and> conns ! i \<subseteq> {..< length conns}"
    if "i < length conns" for i
  proof -
    have sub: "conns ! i \<subseteq> {..< ?n}"
      using that char len by auto
    with iter len show ?thesis by auto
  qed
  with len show ?thesis
    by (simp add: graph_ok_def)
qed

lemma compile_gates_result:
  assumes conns: "find_wire_connections self = Inr conns"
    and wf: "\<forall>w \<in> set (wires self). lengths_sum (segments w) \<noteq> 0"
    and iter: "\<forall>S. S \<subseteq> {..< length (wires self)} \<longrightarrow> set (iter S) = S"
    and cover: "registers_cover (length (wires self)) self"
  shows "compile_gates iter self
         = Inr (emit (concat (map (wire_block self)
                  (group_order iter conns [0 ..< length (wires self)] {}))) self)
       \<and> set (group_order iter conns [0 ..< length (wires self)] {}) = {..< length (wires self)}"
proof -
  have pts: "\<forall>w \<in> set (wires self). points w \<noteq> []"
    using wf nonzero_length_points by blast
  from find_wire_connections_graph_ok [OF conns pts iter]
  have len: "length conns = length (wires self)" and ok: "graph_ok iter conns"
    by simp_all
  have idxs: "\<forall>i \<in> set [0 ..< length (wires self)]. i < length (wires self)"
    by simp
  have iter': "\<forall>S. S \<subseteq> {..< length conns} \<longrightarrow> set (iter S) = S"
    using iter len by simp
  from process_wires_result [OF ok len iter' wf cover idxs, of "{}"]
  show ?thesis
    by (auto simp: compile_gates_def conns)
qed

lemma ascending_lists: "\<forall>S. S \<subseteq> {..< n} \<longrightarrow> set (ascending n S) = S"
  by (auto simp: ascending_def)


lemma sqrt_1600: "sqrt 1600 = 40"
  by (rule real_sqrt_unique) simp_all













lemma on_wire_matching: "on_wire p wire \<longleftrightarrow> 0 < matching_segments p wire"
  by (auto simp: on_wire_def matching_segments_def list_ex_iff filter_empty_conv)

lemma on_wire_last_matching:
  "on_wire p wire \<longleftrightarrow> (\<exists>k. last_matching p (segments wire) = Some k)"
proof -
  have "on_wire p wire \<longleftrightarrow>
        (\<exists>x \<in> set (segments wire). point_on_line_segment p (fst x) (snd x))"
    by (simp add: on_wire_def list_ex_iff case_prod_beta)
  also have "\<dots> \<longleftrightarrow>
        (\<exists>j < length (segments wire).
           point_on_line_segment p (fst (segments wire ! j)) (snd (segments wire ! j)))"
    by (metis in_set_conv_nth)
  also have "\<dots> \<longleftrightarrow> last_matching p (segments wire) \<noteq> None"
    by (simp add: last_matching_None)
  finally show ?thesis by auto
qed

lemma position_of_arc:
  assumes "lengths_sum (segments wire) \<noteq> 0" and "last_matching p (segments wire) = Some k"
  shows "position_of wire p = arc_position wire k p"
  using assms by (simp add: position_of_def get_position_along_wire_eq)

lemma wire_gate_list_set:
  "set (wire_gate_list gs wire)
   = {(g, position_of wire (pos g)) | g. g \<in> set gs \<and> on_wire (pos g) wire}"
  by (auto simp: wire_gate_list_def on_wire_matching)

lemma on_first_of_bent: "point_on_line_segment (220, 0) (0, 0) (240, 0)"
  by (simp add: point_on_line_segment_def point_to_line_distance_def Let_def grid_size_def)

text \<open>
  C2, as stated, fails. An H gate at (220,0) on the wire (0,0), (240,0), (0,100) is on both
  segments: it is collected twice, both times with the position 13/25 of the last matching
  segment, not the 11/25 of the first, and two operations are emitted for it.
\<close>

theorem gate_collection_counterexample:
  "collect_gates [h_gate] bent_wire [] = Inr [(h_gate, 13 / 25), (h_gate, 13 / 25)]
   \<and> first_matching (pos h_gate) (segments bent_wire) = Some 0
   \<and> arc_position bent_wire 0 (pos h_gate) = 11 / 25
   \<and> process_wire 0 (double_state, {})
       = Inr (double_state\<lparr>circuit := Some \<lparr>num_qubits = 1, num_clbits = 1,
                data = [Reset 0, H 0, H 0]\<rparr>\<rparr>, {0})"
proof -
  have L: "lengths_sum (segments bent_wire) \<noteq> 0"
    by (simp add: lengths_sum_def segment_length_def segments_def bent_wire_def
        sqrt_57600 sqrt_67600)
  have lm: "last_matching (220, 0) (segments bent_wire) = Some (Suc 0)"
    by (simp add: last_matching_def segments_def bent_wire_def upt_2 on1)
  have arc1: "arc_position bent_wire (Suc 0) (220, 0) = 13 / 25"
    and arc0: "arc_position bent_wire 0 (220, 0) = 11 / 25"
    by (simp_all add: arc_position_def lengths_sum_def segment_length_def segments_def
        bent_wire_def sqrt_400 sqrt_57600 sqrt_67600 real_sqrt_unique [of 220 48400])
  have pos: "position_of bent_wire (220, 0) = 13 / 25"
    using position_of_arc [OF L lm] arc1 by simp
  have cnt: "matching_segments (220, 0) bent_wire = Suc (Suc 0)"
    by (simp add: matching_segments_def segments_def bent_wire_def on1 on_first_of_bent)
  have list: "wire_gate_list [h_gate] bent_wire = [(h_gate, 13 / 25), (h_gate, 13 / 25)]"
    by (simp add: wire_gate_list_def h_gate_def cnt pos)
  have c: "collect_gates [h_gate] bent_wire [] = Inr [(h_gate, 13 / 25), (h_gate, 13 / 25)]"
    using collect_gates_result [OF L, of "[h_gate]" "[]"] by (simp add: list)
  have f: "first_matching (pos h_gate) (segments bent_wire) = Some 0"
    by (simp add: first_matching_def segments_def bent_wire_def upt_2 h_gate_def on_first_of_bent)
  have cover: "registers_cover (length (wires double_state)) double_state"
    by (simp add: double_state_def registers_cover_def)
  have idx: "0 < length (wires double_state)"
    by (simp add: double_state_def)
  have len: "lengths_sum (segments (wires double_state ! 0)) \<noteq> 0"
    using L by (simp add: double_state_def)
  have block: "wire_block double_state 0 = [Reset 0, H 0, H 0]"
    by (simp add: wire_block_def double_state_def list gate_operation_def)
      (simp add: h_gate_def)
  have "process_wire 0 (double_state, {}) = Inr (emit [Reset 0, H 0, H 0] double_state, {0})"
    using process_wire_result [OF cover idx len, of "{}"] by (simp add: block)
  then have p: "process_wire 0 (double_state, {})
       = Inr (double_state\<lparr>circuit := Some \<lparr>num_qubits = 1, num_clbits = 1,
                data = [Reset 0, H 0, H 0]\<rparr>\<rparr>, {0})"
    by (simp add: emit_def double_state_def)
  show ?thesis
    using c f arc0 p by (simp add: h_gate_def)
qed

text \<open>
  C2, amended. For a wire of nonzero length the collection raises nothing; every gate whose
  position is on at least one segment of the wire is collected for that wire, and every
  collected entry is such a gate, with the arc-length position computed from the last
  matching segment in point order.
\<close>

theorem gate_collection:
  assumes "lengths_sum (segments wire) \<noteq> 0"
  shows "\<exists>wire_gates. collect_gates gs wire [] = Inr wire_gates
     \<and> (\<forall>g \<in> set gs. on_wire (pos g) wire \<longrightarrow>
           (\<exists>k. last_matching (pos g) (segments wire) = Some k
               \<and> (g, arc_position wire k (pos g)) \<in> set wire_gates))
     \<and> (\<forall>(g, a) \<in> set wire_gates. g \<in> set gs \<and> on_wire (pos g) wire
           \<and> (\<exists>k. last_matching (pos g) (segments wire) = Some k
                 \<and> a = arc_position wire k (pos g)))"
proof -
  let ?wg = "wire_gate_list gs wire"
  have run: "collect_gates gs wire [] = Inr ?wg"
    using collect_gates_result [OF assms, of gs "[]"] by simp
  have fwd: "\<exists>k. last_matching (pos g) (segments wire) = Some k
               \<and> (g, arc_position wire k (pos g)) \<in> set ?wg"
    if g: "g \<in> set gs" "on_wire (pos g) wire" for g
  proof -
    from g obtain k where k: "last_matching (pos g) (segments wire) = Some k"
      by (auto simp: on_wire_last_matching)
    have "(g, position_of wire (pos g)) \<in> set ?wg"
      using g by (auto simp: wire_gate_list_set)
    with k show ?thesis
      by (simp add: position_of_arc [OF assms k])
  qed
  have bwd: "g \<in> set gs \<and> on_wire (pos g) wire
           \<and> (\<exists>k. last_matching (pos g) (segments wire) = Some k
                 \<and> a = arc_position wire k (pos g))"
    if ga: "(g, a) \<in> set ?wg" for g a
  proof -
    from ga have g: "a = position_of wire (pos g)" "g \<in> set gs" "on_wire (pos g) wire"
      by (auto simp: wire_gate_list_set)
    then obtain k where k: "last_matching (pos g) (segments wire) = Some k"
      by (auto simp: on_wire_last_matching)
    show ?thesis
      using g k by (simp add: position_of_arc [OF assms k])
  qed
  show ?thesis
    using run fwd bwd by (intro exI [of _ ?wg]) blast
qed

theorem gate_collection_witness:
  "lengths_sum (segments bent_wire) \<noteq> 0 \<and> on_wire (pos h_gate) bent_wire
   \<and> last_matching (pos h_gate) (segments bent_wire) = Some 1
   \<and> (\<exists>wire_gates. collect_gates [h_gate] bent_wire [] = Inr wire_gates
        \<and> (h_gate, arc_position bent_wire 1 (pos h_gate)) \<in> set wire_gates)"
proof -
  have L: "lengths_sum (segments bent_wire) \<noteq> 0"
    by (simp add: lengths_sum_def segment_length_def segments_def bent_wire_def
        sqrt_57600 sqrt_67600)
  have lm: "last_matching (pos h_gate) (segments bent_wire) = Some 1"
    by (simp add: last_matching_def segments_def bent_wire_def upt_2 on1 h_gate_def)
  have on: "on_wire (pos h_gate) bent_wire"
    using lm by (auto simp: on_wire_last_matching)
  from gate_collection [OF L, of "[h_gate]"] on lm L show ?thesis
    by auto
qed

section \<open>A failed simulation keeps the last statistics\<close>

lemma kept_refl [simp]: "kept self self"
  by (simp add: kept_def)

lemma kept_trans: "kept a b \<Longrightarrow> kept b c \<Longrightarrow> kept a c"
  by (simp add: kept_def)

lemma kept_circuit [simp]: "kept self (self\<lparr>circuit := c\<rparr>)"
  by (simp add: kept_def)

lemma kept_add_gate: "kept self (add_gate_to_circuit gate_type wire_idx self)"
  by (simp add: add_gate_to_circuit_def Let_def split: option.splits sum.splits)

lemma kept_fold_add_gate:
  "kept self (fold (\<lambda>ga. add_gate_to_circuit (type (fst ga)) wire_idx) gas self)"
proof (induction gas arbitrary: self)
  case Nil
  show ?case by simp
next
  case (Cons ga gas)
  show ?case
    using kept_add_gate [of self "type (fst ga)" wire_idx]
      Cons.IH [of "add_gate_to_circuit (type (fst ga)) wire_idx self"]
    by (auto intro: kept_trans)
qed

lemma kept_process_wire: "kept self (state_of (process_wire i (self, p)) fst)"
proof -
  have "kept self (fold (\<lambda>ga. add_gate_to_circuit (type (fst ga)) i) gas (self\<lparr>circuit := c\<rparr>))"
    for gas c
    using kept_fold_add_gate [of "self\<lparr>circuit := c\<rparr>" i gas]
    by (auto intro: kept_trans [of self "self\<lparr>circuit := c\<rparr>"])
  then show ?thesis
    by (auto simp: process_wire_def state_of_def Let_def split: option.splits sum.splits)
qed

lemma kept_process_group: "kept self (state_of (process_group idxs (self, p)) fst)"
proof (induction idxs arbitrary: self p)
  case Nil
  show ?case by (simp add: state_of_def)
next
  case (Cons i idxs)
  show ?case
  proof (cases "process_wire i (self, p)")
    case (Inl x)
    with kept_process_wire [of self i p] show ?thesis
      by (simp add: state_of_def)
  next
    case (Inr sp)
    obtain s' p' where sp: "sp = (s', p')" by (cases sp)
    from kept_process_wire [of self i p] Inr sp have "kept self s'"
      by (simp add: state_of_def)
    with Cons.IH [of s' p'] show ?thesis
      by (auto simp: Inr sp intro: kept_trans)
  qed
qed

lemma kept_process_wires:
  "kept self (state_of (process_wires iter conns idxs (self, p)) fst)"
proof (induction idxs arbitrary: self p)
  case Nil
  show ?case by (simp add: state_of_def)
next
  case (Cons i idxs)
  show ?case
  proof (cases "i \<in> p")
    case True
    with Cons.IH [of self p] show ?thesis by simp
  next
    case False
    show ?thesis
    proof (cases "get_connected_wires iter i conns")
      case (Inl e)
      with False show ?thesis by (simp add: state_of_def)
    next
      case (Inr g)
      show ?thesis
      proof (cases "process_group (iter g) (self, p)")
        case (Inl x)
        with kept_process_group [of self "iter g" p] False Inr show ?thesis
          by (simp add: state_of_def)
      next
        case inr: (Inr sp)
        obtain s' p' where sp: "sp = (s', p')" by (cases sp)
        from kept_process_group [of self "iter g" p] inr sp have "kept self s'"
          by (simp add: state_of_def)
        with Cons.IH [of s' p'] False Inr inr sp show ?thesis
          by (auto intro: kept_trans)
      qed
    qed
  qed
qed

lemma kept_compile_gates: "kept self (state_of (compile_gates iter self) id)"
proof (cases "find_wire_connections self")
  case (Inl e)
  then show ?thesis
    by (simp add: compile_gates_def state_of_def)
next
  case (Inr conns)
  with kept_process_wires [of self iter conns "[0 ..< length (wires self)]" "{}"]
  show ?thesis
    by (auto simp: compile_gates_def state_of_def split: sum.splits prod.splits)
qed

lemma kept_measure_segments:
  "kept self (state_of (measure_segments s i segs (self, m)) fst)"
  by (induction segs) (auto simp: state_of_def split: option.splits sum.splits if_splits)

lemma kept_measure_wires: "kept self (state_of (measure_wires s iws (self, m)) fst)"
proof (induction iws arbitrary: self m)
  case Nil
  show ?case by (simp add: state_of_def)
next
  case (Cons iw iws)
  obtain i w where iw: "iw = (i, w)" by (cases iw)
  show ?case
  proof (cases "measure_segments s i (segments w) (self, m)")
    case (Inl x)
    with kept_measure_segments [of self s i "segments w" m] show ?thesis
      by (simp add: state_of_def iw)
  next
    case (Inr sm)
    obtain s' m' where sm: "sm = (s', m')" by (cases sm)
    from kept_measure_segments [of self s i "segments w" m] Inr sm have "kept self s'"
      by (simp add: state_of_def)
    with Cons.IH [of s' m'] show ?thesis
      by (auto simp: Inr sm iw intro: kept_trans)
  qed
qed

lemma kept_measure_sensors: "kept self (state_of (measure_sensors ss iws (self, m)) fst)"
proof (induction ss arbitrary: self m)
  case Nil
  show ?case by (simp add: state_of_def)
next
  case (Cons s ss)
  show ?case
  proof (cases "measure_wires s iws (self, m)")
    case (Inl x)
    with kept_measure_wires [of self s iws m] show ?thesis
      by (simp add: state_of_def)
  next
    case (Inr sm)
    obtain s' m' where sm: "sm = (s', m')" by (cases sm)
    from kept_measure_wires [of self s iws m] Inr sm have "kept self s'"
      by (simp add: state_of_def)
    with Cons.IH [of s' m'] show ?thesis
      by (auto simp: Inr sm intro: kept_trans)
  qed
qed

lemma kept_attach_measurements: "kept self (state_of (attach_measurements self) id)"
  using kept_measure_sensors [of self "sensors self" "enumerate 0 (wires self)" False]
  by (auto simp: attach_measurements_def state_of_def kept_def
      split: sum.splits prod.splits option.splits)

lemma kept_initialize: "kept self (initialize_circuit self)"
  by (simp add: initialize_circuit_def)

lemma kept_compile_circuit: "kept self (state_of (compile_circuit iter self) id)"
proof (cases "compile_gates iter (initialize_circuit self)")
  case (Inl x)
  with kept_compile_gates [of "initialize_circuit self" iter] kept_initialize [of self]
  show ?thesis
    by (auto simp: compile_circuit_def state_of_def intro: kept_trans)
next
  case (Inr s1)
  with kept_compile_gates [of "initialize_circuit self" iter] kept_initialize [of self]
  have "kept self s1"
    by (auto simp: state_of_def intro: kept_trans)
  with kept_attach_measurements [of s1] show ?thesis
    by (auto simp: compile_circuit_def Inr intro: kept_trans)
qed

lemma kept_simulate_error:
  assumes "simulate_try env iter self = Inl (e, self')"
  shows "kept self self'"
proof (cases "compile_circuit iter self")
  case (Inl x)
  with assms kept_compile_circuit [of self iter] show ?thesis
    by (simp add: simulate_try_def state_of_def)
next
  case (Inr s1)
  with kept_compile_circuit [of self iter] have k: "kept self s1"
    by (simp add: state_of_def)
  then have "kept self (s1\<lparr>circuit_info := c\<rparr>)" for c
    by (simp add: kept_def)
  with assms k Inr show ?thesis
    by (auto simp: simulate_try_def Let_def split: option.splits sum.splits)
qed

lemma attach_measurements_returns:
  assumes "registers_cover (length (wires self)) self"
  shows "\<exists>self'. attach_measurements self = Inr self'"
proof -
  from assms obtain qc where "circuit self = Some qc"
    by (auto simp: registers_cover_def split: option.splits)
  then show ?thesis
    using measure_sensors_result [OF cover_enumerate [OF assms], of "sensors self" False]
    by (simp add: attach_measurements_def emit_def circuit_measure_all_def)
qed

lemma compile_circuit_returns:
  assumes ne: "wires self \<noteq> []"
    and wf: "\<forall>w \<in> set (wires self). lengths_sum (segments w) \<noteq> 0"
    and iter: "\<forall>S. S \<subseteq> {..< length (wires self)} \<longrightarrow> set (iter S) = S"
  shows "\<exists>self'. compile_circuit iter self = Inr self'"
proof -
  let ?init = "initialize_circuit self"
  have w: "wires ?init = wires self"
    by (simp add: initialize_circuit_def)
  have cover: "registers_cover (length (wires ?init)) ?init"
    using ne by (simp add: initialize_circuit_def registers_cover_def)
  have wf': "\<forall>w \<in> set (wires ?init). lengths_sum (segments w) \<noteq> 0"
    and iter': "\<forall>S. S \<subseteq> {..< length (wires ?init)} \<longrightarrow> set (iter S) = S"
    using wf iter by (simp_all add: w)
  have "\<forall>w \<in> set (wires ?init). points w \<noteq> []"
    using wf' nonzero_length_points by blast
  from find_wire_connections_result [OF this] obtain conns where
    conns: "find_wire_connections ?init = Inr conns"
    by blast
  from compile_gates_result [OF conns wf' iter' cover] obtain ops where
    gates: "compile_gates iter ?init = Inr (emit ops ?init)"
    by blast
  have "registers_cover (length (wires (emit ops ?init))) (emit ops ?init)"
    using cover by simp
  from attach_measurements_returns [OF this] show ?thesis
    by (simp add: compile_circuit_def gates)
qed

text \<open>
  C5. When the body of the \<^verbatim>\<open>try\<close> of \<^verbatim>\<open>simulate_circuit\<close> raises an exception \<open>e\<close>,
  whatever step raised it (compilation, showing the circuit, the execution engine), the
  method returns with the error message of \<open>e\<close> written to the circuit text area, and
  \<^verbatim>\<open>sensor_data\<close> and the sensor report are what they were before the call.
\<close>

theorem simulation_error_keeps_statistics:
  assumes "wires self \<noteq> []" and "simulate_try env iter self = Inl (e, self')"
  shows "sensor_data (simulate_circuit env iter self) = sensor_data self
     \<and> sensor_text (simulate_circuit env iter self) = sensor_text self
     \<and> circuit_info (simulate_circuit env iter self) = ErrorMessage e"
  using assms kept_simulate_error [OF assms(2)]
  by (simp add: simulate_circuit_def kept_def)

theorem simulation_error_keeps_statistics_witness:
  "wires reported_state \<noteq> []
   \<and> (\<exists>self'. simulate_try failing_engine (ascending 1) reported_state
                = Inl (ExecutionError, self'))
   \<and> sensor_data (simulate_circuit failing_engine (ascending 1) reported_state)
       = [(0, (1 / 2, 1 / 2))]
   \<and> sensor_text (simulate_circuit failing_engine (ascending 1) reported_state)
       = MeasurementResults [(0, 1 / 2, 1 / 2, ''Superposition state'')]
   \<and> circuit_info (simulate_circuit failing_engine (ascending 1) reported_state)
       = ErrorMessage ExecutionError"
proof -
  have ne: "wires reported_state \<noteq> []"
    by (simp add: reported_state_def)
  have wf: "\<forall>w \<in> set (wires reported_state). lengths_sum (segments w) \<noteq> 0"
    by (simp add: reported_state_def straight_wire_def lengths_sum_def segments_def
        segment_length_def sqrt_400)
  have iter: "\<forall>S. S \<subseteq> {..< length (wires reported_state)} \<longrightarrow> set (ascending 1 S) = S"
    using ascending_lists [of 1] by (simp add: reported_state_def)
  from compile_circuit_returns [OF ne wf iter] obtain s1 where
    "compile_circuit (ascending 1) reported_state = Inr s1"
    by blast
  then have run: "simulate_try failing_engine (ascending 1) reported_state
      = Inl (ExecutionError, s1\<lparr>circuit_info := CircuitRendering (circuit s1)\<rparr>)"
    by (simp add: simulate_try_def failing_engine_def)
  from simulation_error_keeps_statistics [OF ne run] ne run show ?thesis
    by (simp add: reported_state_def)
qed

section \<open>The compiled circuit and the measurement fallback\<close>

lemma attach_measurements_result:
  assumes c: "circuit self = Some qc"
    and q: "num_qubits qc = length (wires self)"
    and b: "num_clbits qc = length (wires self)"
  shows "attach_measurements self
         = Inr (self\<lparr>circuit := Some (compiled (length (wires self)) (data qc)
                   (sensor_measurements (wires self) (sensors self)))\<rparr>)"
proof -
  have cover: "registers_cover (length (wires self)) self"
    using assms by (simp add: registers_cover_def)
  let ?ms = "sensor_measurements (wires self) (sensors self)"
  have run: "measure_sensors (sensors self) (enumerate 0 (wires self)) (self, False)
             = Inr (emit ?ms self, ?ms \<noteq> [])"
    using measure_sensors_result [OF cover_enumerate [OF cover], of "sensors self" False]
    by (simp add: sensor_measurements_def)
  show ?thesis
    using c q b
    by (simp add: attach_measurements_def run circuit_measure_all_def emit_def compiled_def
        measure_all_operations_def)
qed

lemma compile_circuit_result:
  assumes ne: "wires self \<noteq> []"
    and wf: "\<forall>w \<in> set (wires self). lengths_sum (segments w) \<noteq> 0"
    and iter: "\<forall>S. S \<subseteq> {..< length (wires self)} \<longrightarrow> set (iter S) = S"
  shows "\<exists>conns. find_wire_connections self = Inr conns
     \<and> compile_circuit iter self
         = Inr (self\<lparr>circuit := Some (compiled (length (wires self))
                   (concat (map (wire_block self)
                      (group_order iter conns [0 ..< length (wires self)] {})))
                   (sensor_measurements (wires self) (sensors self)))\<rparr>)"
proof -
  let ?init = "initialize_circuit self"
  let ?n = "length (wires self)"
  have w: "wires ?init = wires self" and g: "gates ?init = gates self"
    and s: "sensors ?init = sensors self"
    by (simp_all add: initialize_circuit_def)
  have init: "?init = self\<lparr>circuit := Some \<lparr>num_qubits = ?n, num_clbits = ?n, data = []\<rparr>\<rparr>"
  proof -
    from ne have "max ?n 1 = ?n"
      by (cases "wires self") simp_all
    with ne show ?thesis
      by (simp add: initialize_circuit_def)
  qed
  have cover: "registers_cover (length (wires ?init)) ?init"
    using ne by (simp add: initialize_circuit_def registers_cover_def)
  have wf': "\<forall>w \<in> set (wires ?init). lengths_sum (segments w) \<noteq> 0"
    and iter': "\<forall>S. S \<subseteq> {..< length (wires ?init)} \<longrightarrow> set (iter S) = S"
    using wf iter by (simp_all add: w)
  have "\<forall>w \<in> set (wires self). points w \<noteq> []"
    using wf nonzero_length_points by blast
  from find_wire_connections_result [OF this] obtain conns where
    conns: "find_wire_connections self = Inr conns"
    by blast
  have conns': "find_wire_connections ?init = Inr conns"
    using conns by (simp add: find_wire_connections_def w)
  have blocks: "wire_block ?init = wire_block self"
    by (rule ext) (simp add: wire_block_def w g)
  let ?ops = "concat (map (wire_block self) (group_order iter conns [0 ..< ?n] {}))"
  from compile_gates_result [OF conns' wf' iter' cover]
  have gates: "compile_gates iter ?init = Inr (emit ?ops ?init)"
    by (simp add: w blocks)
  have e: "emit ?ops ?init
           = self\<lparr>circuit := Some \<lparr>num_qubits = ?n, num_clbits = ?n, data = ?ops\<rparr>\<rparr>"
    by (subst init) (simp add: emit_def)
  have "attach_measurements (emit ?ops ?init)
        = Inr (self\<lparr>circuit := Some (compiled ?n ?ops
                 (sensor_measurements (wires self) (sensors self)))\<rparr>)"
    unfolding e
    using attach_measurements_result
      [of "self\<lparr>circuit := Some \<lparr>num_qubits = ?n, num_clbits = ?n, data = ?ops\<rparr>\<rparr>"
          "\<lparr>num_qubits = ?n, num_clbits = ?n, data = ?ops\<rparr>"]
    by simp
  then show ?thesis
    using conns by (simp add: compile_circuit_def gates)
qed

lemma parallel_connections:
  assumes "wires s = demo_wires"
  shows "find_wire_connections s = Inr [{}, {}]"
  using assms
  by (simp add: find_wire_connections_def demo_wires_def endpoints_def point_near_pos_def)

lemma parallel_order: "group_order (ascending 2) [{}, {}] [0 ..< 2] {} = [0, Suc 0]"
  by (simp add: upt_2 get_connected_wires_def search.simps ascending_def)

lemma parallel_blocks:
  assumes "wires s = demo_wires" and "gates s = []"
  shows "wire_block s 0 = [Reset 0]" and "wire_block s (Suc 0) = [Reset (Suc 0)]"
  using assms by (simp_all add: wire_block_def wire_gate_list_def)

lemma parallel_wf:
  assumes "wires s = demo_wires"
  shows "\<forall>w \<in> set (wires s). lengths_sum (segments w) \<noteq> 0"
  using assms
  by (simp add: demo_wires_def lengths_sum_def segments_def segment_length_def sqrt_1600)

lemma parallel_iter:
  assumes "wires s = demo_wires"
  shows "\<forall>S. S \<subseteq> {..< length (wires s)} \<longrightarrow> set (ascending 2 S) = S"
proof -
  have "length (wires s) = 2"
    using assms by (simp add: demo_wires_def)
  show ?thesis
    unfolding \<open>length (wires s) = 2\<close> by (rule ascending_lists)
qed

lemma measure_all_two:
  "map (\<lambda>q. Measure q (2 + q)) [0 ..< 2] = [Measure 0 2, Measure (Suc 0) 3]"
  "measure_all_operations 2 = [Barrier, Measure 0 2, Measure (Suc 0) 3]"
  by (simp_all add: measure_all_operations_def upt_2 numeral_3_eq_3 numeral_2_eq_2)

text \<open>
  C4, as stated, fails on two parallel wires with one sensor between them, on no wire. The
  fallback does not measure qubit 0 into classical bit 0 and qubit 1 into classical bit 1 of
  the two-bit register allocated by \<^verbatim>\<open>initialize_circuit\<close>: the compiled circuit has four
  classical bits, and the qubits are measured into bits 2 and 3, those of the register
  that \<^verbatim>\<open>measure_all()\<close> adds.
\<close>

theorem measure_all_counterexample:
  "compile_circuit (ascending 2) unsensed_state
     = Inr (unsensed_state\<lparr>circuit := Some \<lparr>num_qubits = 2, num_clbits = 4,
              data = [Reset 0, Reset 1, Barrier, Measure 0 2, Measure 1 3]\<rparr>\<rparr>)
   \<and> Measure 0 0 \<notin> set [Reset 0, Reset 1, Barrier, Measure 0 2, Measure 1 3]
   \<and> Measure 1 1 \<notin> set [Reset 0, Reset 1, Barrier, Measure 0 2, Measure 1 3]"
proof -
  have w: "wires unsensed_state = demo_wires" and g: "gates unsensed_state = []"
    by (simp_all add: unsensed_state_def sensed_state_def)
  have n: "length (wires unsensed_state) = 2"
    by (simp add: w demo_wires_def)
  have ne: "wires unsensed_state \<noteq> []"
    by (simp add: w demo_wires_def)
  have ms: "sensor_measurements (wires unsensed_state) (sensors unsensed_state) = []"
    by (simp add: sensor_measurements_eq unsensed_state_def sensed_state_def demo_wires_def
        on_wire_def segments_def between_parallel upt_2)
  from compile_circuit_result [OF ne parallel_wf [OF w] parallel_iter [OF w]]
  have "compile_circuit (ascending 2) unsensed_state
     = Inr (unsensed_state\<lparr>circuit := Some \<lparr>num_qubits = 2, num_clbits = 4,
              data = [Reset 0, Reset (Suc 0), Barrier, Measure 0 2, Measure (Suc 0) 3]\<rparr>\<rparr>)"
    unfolding ms n
    by (simp add: parallel_connections [OF w] parallel_order parallel_blocks [OF w g]
        compiled_def measure_all_two)
  then show ?thesis
    by simp
qed

text \<open>
  C4, amended. For a diagram with at least one wire, wires of nonzero length and any order of
  iterating sets of wire indices, compilation (allocation by \<^verbatim>\<open>initialize_circuit\<close>, gate
  phase, measurement step) raises nothing and leaves a circuit of \<open>n\<close> qubits, \<open>n\<close> the number
  of wires, whose operations are those of the gate phase followed by the measurements.
  When no sensor is on any wire (in particular without sensors) the measurements are those
  of \<^verbatim>\<open>measure_all()\<close>: a barrier, then every qubit \<open>q\<close> into classical bit \<open>n + q\<close>, that is
  bit \<open>q\<close> of a new register of width \<open>n\<close> added after the one of \<^verbatim>\<open>initialize_circuit\<close>; the
  circuit then has \<open>2 n\<close> classical bits and the first \<open>n\<close> are not written. Otherwise the
  circuit keeps its \<open>n\<close> classical bits and the measurements are only of the form
  \<open>Measure i i\<close>, exactly for the wires \<open>i\<close> that some sensor is on.
\<close>

theorem measurement_fallback:
  assumes "wires self \<noteq> []"
    and "\<forall>w \<in> set (wires self). lengths_sum (segments w) \<noteq> 0"
    and "\<forall>S. S \<subseteq> {..< length (wires self)} \<longrightarrow> set (iter S) = S"
  shows "\<exists>conns gate_ops.
       find_wire_connections self = Inr conns
     \<and> gate_ops = concat (map (wire_block self)
                     (group_order iter conns [0 ..< length (wires self)] {}))
     \<and> compile_circuit iter self
         = Inr (self\<lparr>circuit := Some
             (if sensor_measurements (wires self) (sensors self) = []
              then \<lparr>num_qubits = length (wires self),
                    num_clbits = length (wires self) + length (wires self),
                    data = gate_ops @ Barrier
                      # map (\<lambda>q. Measure q (length (wires self) + q))
                          [0 ..< length (wires self)]\<rparr>
              else \<lparr>num_qubits = length (wires self),
                    num_clbits = length (wires self),
                    data = gate_ops @ sensor_measurements (wires self) (sensors self)\<rparr>)\<rparr>)
     \<and> (sensor_measurements (wires self) (sensors self) = []
          \<longleftrightarrow> \<not> (\<exists>s \<in> set (sensors self). \<exists>w \<in> set (wires self). on_wire s w))
     \<and> set (sensor_measurements (wires self) (sensors self))
         = {Measure i i | i. i < length (wires self)
                            \<and> (\<exists>s \<in> set (sensors self). on_wire s (wires self ! i))}"
proof -
  from compile_circuit_result [OF assms] obtain conns where
    "find_wire_connections self = Inr conns"
    "compile_circuit iter self
       = Inr (self\<lparr>circuit := Some (compiled (length (wires self))
                 (concat (map (wire_block self)
                    (group_order iter conns [0 ..< length (wires self)] {})))
                 (sensor_measurements (wires self) (sensors self)))\<rparr>)"
    by blast
  then show ?thesis
    using sensor_measurements_empty [of "wires self" "sensors self"]
      sensor_measurements_set [of "wires self" "sensors self"]
    by (simp add: compiled_def measure_all_operations_def)
qed

theorem measurement_fallback_witness:
  "compile_circuit (ascending 2) (sensed_state\<lparr>sensors := []\<rparr>)
     = Inr (sensed_state\<lparr>sensors := [], circuit := Some \<lparr>num_qubits = 2, num_clbits = 4,
              data = [Reset 0, Reset 1, Barrier, Measure 0 2, Measure 1 3]\<rparr>\<rparr>)
   \<and> compile_circuit (ascending 2) sensed_state
     = Inr (sensed_state\<lparr>circuit := Some \<lparr>num_qubits = 2, num_clbits = 2,
              data = [Reset 0, Reset 1, Measure 0 0]\<rparr>\<rparr>)"
proof -
  let ?none = "sensed_state\<lparr>sensors := []\<rparr>"
  have w: "wires sensed_state = demo_wires" and g: "gates sensed_state = []"
    and w0: "wires ?none = demo_wires" and g0: "gates ?none = []"
    by (simp_all add: sensed_state_def)
  have n: "length (wires sensed_state) = 2" "length (wires ?none) = 2"
    by (simp_all add: w demo_wires_def)
  have ne: "wires sensed_state \<noteq> []" "wires ?none \<noteq> []"
    by (simp_all add: w demo_wires_def)
  have m1: "sensor_measurements (wires sensed_state) (sensors sensed_state) = [Measure 0 0]"
    by (simp add: sensor_measurements_eq sensed_state_def demo_wires_def
        on_wire_def segments_def mid_on_horizontal off_parallel upt_2)
  have m0: "sensor_measurements (wires ?none) (sensors ?none) = []"
    by (simp add: sensor_measurements_eq)
  from measurement_fallback [OF ne(2) parallel_wf [OF w0] parallel_iter [OF w0]]
  have a: "compile_circuit (ascending 2) ?none
     = Inr (?none\<lparr>circuit := Some \<lparr>num_qubits = 2, num_clbits = 4,
              data = [Reset 0, Reset (Suc 0), Barrier, Measure 0 2, Measure (Suc 0) 3]\<rparr>\<rparr>)"
    unfolding m0 n measure_all_two
    by (simp add: parallel_connections [OF w0] parallel_order parallel_blocks [OF w0 g0])
  from measurement_fallback [OF ne(1) parallel_wf [OF w] parallel_iter [OF w]]
  have b: "compile_circuit (ascending 2) sensed_state
     = Inr (sensed_state\<lparr>circuit := Some \<lparr>num_qubits = 2, num_clbits = 2,
              data = [Reset 0, Reset (Suc 0), Measure 0 0]\<rparr>\<rparr>)"
    unfolding m1 n
    by (simp add: parallel_connections [OF w] parallel_order parallel_blocks [OF w g])
  from a b show ?thesis
    by simp
qed

end
